theory Spec2Isabelle
  imports Complex_Main
begin

section \<open>Strings\<close>

text \<open>
  A JavaScript string is a sequence of UTF-16 code units. A code unit is modelled by its
  number, so that the white space and the line terminators outside ASCII are the ones the
  engine uses; \<open>js\<close> turns an ASCII literal into such a string.
\<close>

type_synonym jschar = nat
type_synonym jsstring = "jschar list"

definition js :: "string \<Rightarrow> jsstring" where
  "js s = map of_char s"

text \<open>The line terminators: LF, CR, U+2028 and U+2029. The regular expression atom
  \<open>.\<close> matches every code unit but these.\<close>

definition is_line_terminator :: "jschar \<Rightarrow> bool" where
  "is_line_terminator c \<longleftrightarrow> c = 10 \<or> c = 13 \<or> c = 8232 \<or> c = 8233"

definition is_dot :: "jschar \<Rightarrow> bool" where
  "is_dot c \<longleftrightarrow> \<not> is_line_terminator c"

text \<open>The class \<open>\s\<close>, which is also what \<open>trim\<close> strips: TAB, LF, VT, FF, CR, space,
  U+00A0, U+1680, U+2000 to U+200A, U+2028, U+2029, U+202F, U+205F, U+3000, U+FEFF.\<close>

definition is_space :: "jschar \<Rightarrow> bool" where
  "is_space c \<longleftrightarrow>
     c = 9 \<or> c = 10 \<or> c = 11 \<or> c = 12 \<or> c = 13 \<or> c = 32 \<or> c = 160 \<or> c = 5760 \<or>
     (8192 \<le> c \<and> c \<le> 8202) \<or> c = 8232 \<or> c = 8233 \<or> c = 8239 \<or> c = 8287 \<or>
     c = 12288 \<or> c = 65279"

definition trim :: "jsstring \<Rightarrow> jsstring" where
  "trim s = rev (dropWhile is_space (rev (dropWhile is_space s)))"

text \<open>\<open>content.split('\n')\<close>: the pieces between the line feeds, the empty string giving
  one empty piece.\<close>

fun split_lines :: "jsstring \<Rightarrow> jsstring list" where
  "split_lines [] = [[]]"
| "split_lines (c # cs) =
     (if c = 10 then [] # split_lines cs
      else (c # hd (split_lines cs)) # tl (split_lines cs))"

text \<open>\<open>lines.join('\n')\<close>.\<close>

fun join_lines :: "jsstring list \<Rightarrow> jsstring" where
  "join_lines [] = []"
| "join_lines [l] = l"
| "join_lines (l # ls) = l @ 10 # join_lines ls"

text \<open>The decimal numeral of a number, as a template literal prints it.\<close>

fun decimal :: "nat \<Rightarrow> jsstring" where
  "decimal n = (if n < 10 then [48 + n] else decimal (n div 10) @ [48 + n mod 10])"

declare decimal.simps [simp del]

section \<open>Regular expressions\<close>

text \<open>
  The expressions of the parser are sequences of quantified character classes:
  \<open>Rep p lo hi\<close> is a class \<open>p\<close> repeated at least \<open>lo\<close> and at most \<open>hi\<close> times
  (\<open>None\<close>: no upper bound). Quantifiers are greedy: the matcher tries the longest run
  first and gives code units back one by one while the rest of the expression fails.
  \<open>rx_match\<close> matches at the beginning of the string; with \<open>anchored\<close> the match has
  to end where the string ends (\<open>$\<close> without the multiline flag). The result lists what
  each item matched.
\<close>

datatype rx_item = Rep (cls: "jschar \<Rightarrow> bool") (lo: nat) (hi: "nat option")

primrec first_fit :: "(nat \<Rightarrow> 'a option) \<Rightarrow> nat \<Rightarrow> nat \<Rightarrow> 'a option" where
  "first_fit f l 0 = f l"
| "first_fit f l (Suc d) =
     (case f (l + Suc d) of Some r \<Rightarrow> Some r | None \<Rightarrow> first_fit f l d)"

definition run_length :: "(jschar \<Rightarrow> bool) \<Rightarrow> nat option \<Rightarrow> jsstring \<Rightarrow> nat" where
  "run_length p h s =
     (let n = length (takeWhile p s) in case h of None \<Rightarrow> n | Some m \<Rightarrow> min m n)"

fun rx_match :: "bool \<Rightarrow> rx_item list \<Rightarrow> jsstring \<Rightarrow> jsstring list option" where
  "rx_match anchored [] s = (if anchored \<and> s \<noteq> [] then None else Some [])"
| "rx_match anchored (it # its) s =
     (let n = run_length (cls it) (hi it) s in
      if n < lo it then None
      else first_fit
             (\<lambda>k. case rx_match anchored its (drop k s) of
                     None \<Rightarrow> None
                   | Some ps \<Rightarrow> Some (take k s # ps))
             (lo it) (n - lo it))"

text \<open>\<open>/^(#{1,6})\s+(.+)$/\<close>, \<open>/^(\s*)-\s+(.+)$/\<close> and \<open>/\[\[([^\]]+)\]\]/\<close>.\<close>

definition headerRegex :: "rx_item list" where
  "headerRegex = [Rep (\<lambda>c. c = 35) 1 (Some 6), Rep is_space 1 None, Rep is_dot 1 None]"

definition listRegex :: "rx_item list" where
  "listRegex =
     [Rep is_space 0 None, Rep (\<lambda>c. c = 45) 1 (Some 1), Rep is_space 1 None, Rep is_dot 1 None]"

definition wikilinkRegex :: "rx_item list" where
  "wikilinkRegex =
     [Rep (\<lambda>c. c = 91) 1 (Some 1), Rep (\<lambda>c. c = 91) 1 (Some 1), Rep (\<lambda>c. c \<noteq> 93) 1 None,
      Rep (\<lambda>c. c = 93) 1 (Some 1), Rep (\<lambda>c. c = 93) 1 (Some 1)]"


subsection \<open>The matcher finds a match exactly when there is one\<close>

lemma first_fit_Some:
  "first_fit f l d = Some r \<Longrightarrow> \<exists>k. l \<le> k \<and> k \<le> l + d \<and> f k = Some r"
proof (induction d)
  case 0
  then show ?case by auto
next
  case (Suc d)
  show ?case
  proof (cases "f (l + Suc d)")
    case None
    with Suc.prems have "first_fit f l d = Some r" by simp
    from Suc.IH[OF this] show ?thesis by auto
  next
    case (Some a)
    with Suc.prems have "a = r" by simp
    with Some have "l \<le> l + Suc d \<and> l + Suc d \<le> l + Suc d \<and> f (l + Suc d) = Some r"
      by simp
    then show ?thesis by blast
  qed
qed

lemma first_fit_None:
  "first_fit f l d = None \<Longrightarrow> l \<le> k \<Longrightarrow> k \<le> l + d \<Longrightarrow> f k = None"
proof (induction d)
  case 0
  then show ?case by auto
next
  case (Suc d)
  then show ?case by (cases "k = l + Suc d") (auto split: option.splits)
qed

lemma first_fit_complete:
  "l \<le> k \<Longrightarrow> k \<le> l + d \<Longrightarrow> f k \<noteq> None \<Longrightarrow> first_fit f l d \<noteq> None"
  using first_fit_None by metis

text \<open>What an item may match: code units of its class, as many as its bounds allow.\<close>

definition item_ok :: "rx_item \<Rightarrow> jsstring \<Rightarrow> bool" where
  "item_ok it p \<longleftrightarrow>
     list_all (cls it) p \<and> lo it \<le> length p \<and>
     (case hi it of None \<Rightarrow> True | Some h \<Rightarrow> length p \<le> h)"

lemma take_takeWhile_all: "k \<le> length (takeWhile p s) \<Longrightarrow> list_all p (take k s)"
proof (induction s arbitrary: k)
  case Nil
  then show ?case by simp
next
  case (Cons a s)
  then show ?case by (cases k) (auto split: if_splits)
qed

lemma all_prefix_takeWhile: "list_all p xs \<Longrightarrow> length xs \<le> length (takeWhile p (xs @ ys))"
  by (induction xs) auto

lemma run_length_take:
  assumes "k \<le> run_length p h s"
  shows "list_all p (take k s)" and "length (take k s) = k"
    and "(case h of None \<Rightarrow> True | Some m \<Rightarrow> k \<le> m)"
proof -
  from assms have k: "k \<le> length (takeWhile p s)"
    by (auto simp: run_length_def Let_def split: option.splits)
  then show "list_all p (take k s)" by (rule take_takeWhile_all)
  have "length (takeWhile p s) \<le> length s" by (rule length_takeWhile_le)
  with k show "length (take k s) = k" by simp
  from assms show "(case h of None \<Rightarrow> True | Some m \<Rightarrow> k \<le> m)"
    by (auto simp: run_length_def Let_def split: option.splits)
qed

lemma rx_match_sound:
  "rx_match a its s = Some ps \<Longrightarrow>
     list_all2 item_ok its ps \<and> (\<exists>r. s = concat ps @ r \<and> (a \<longrightarrow> r = []))"
proof (induction its arbitrary: s ps)
  case Nil
  then show ?case by (auto split: if_splits)
next
  case (Cons it its)
  let ?n = "run_length (cls it) (hi it) s"
  let ?f = "\<lambda>k. case rx_match a its (drop k s) of
                   None \<Rightarrow> None | Some ps \<Rightarrow> Some (take k s # ps)"
  from Cons.prems have n: "\<not> ?n < lo it"
    and ff: "first_fit ?f (lo it) (?n - lo it) = Some ps"
    by (auto simp: Let_def split: if_splits)
  from first_fit_Some[OF ff] obtain k
    where k: "lo it \<le> k" "k \<le> lo it + (?n - lo it)" "?f k = Some ps"
    by blast
  from k(3) obtain qs where qs: "rx_match a its (drop k s) = Some qs" "ps = take k s # qs"
    by (auto split: option.splits)
  from k(2) n have kn: "k \<le> ?n" by simp
  note rl = run_length_take[OF kn]
  from Cons.IH[OF qs(1)] obtain r
    where r: "list_all2 item_ok its qs" "drop k s = concat qs @ r" "a \<longrightarrow> r = []"
    by blast
  have "item_ok it (take k s)" using rl k(1) unfolding item_ok_def
    by (auto split: option.splits)
  then have l2: "list_all2 item_ok (it # its) ps" using r(1) qs(2) by simp
  have "s = concat ps @ r"
  proof -
    have "concat ps @ r = take k s @ (concat qs @ r)" using qs(2) by simp
    also have "\<dots> = take k s @ drop k s" using r(2) by simp
    finally show ?thesis by simp
  qed
  with r(3) have "\<exists>r. s = concat ps @ r \<and> (a \<longrightarrow> r = [])" by blast
  with l2 show ?case by blast
qed

lemma rx_match_complete:
  "list_all2 item_ok its ps \<Longrightarrow> s = concat ps @ r \<Longrightarrow> (a \<longrightarrow> r = []) \<Longrightarrow>
     rx_match a its s \<noteq> None"
proof (induction its arbitrary: s ps)
  case Nil
  then show ?case by auto
next
  case (Cons it its)
  from Cons.prems(1) obtain p qs
    where ps: "ps = p # qs" "item_ok it p" "list_all2 item_ok its qs"
    by (auto simp: list_all2_Cons1)
  let ?n = "run_length (cls it) (hi it) s"
  let ?f = "\<lambda>k. case rx_match a its (drop k s) of
                   None \<Rightarrow> None | Some ps \<Rightarrow> Some (take k s # ps)"
  have s: "s = p @ (concat qs @ r)" using Cons.prems(2) ps(1) by simp
  have "length p \<le> length (takeWhile (cls it) s)"
    using ps(2) unfolding s item_ok_def by (intro all_prefix_takeWhile) simp
  with ps(2) have pn: "length p \<le> ?n"
    by (auto simp: run_length_def item_ok_def Let_def split: option.splits)
  from ps(2) have lop: "lo it \<le> length p" by (simp add: item_ok_def)
  have "drop (length p) s = concat qs @ r" using s by simp
  from Cons.IH[OF ps(3) this Cons.prems(3)] have "?f (length p) \<noteq> None"
    by (auto split: option.splits)
  then have "first_fit ?f (lo it) (?n - lo it) \<noteq> None"
    using lop pn by (intro first_fit_complete[where k = "length p"]) auto
  then show ?case using lop pn by (auto simp: Let_def)
qed

section \<open>The nodes of a mind map\<close>

text \<open>
  \<open>MindmapNodeData\<close>. A node owns its children; the fields other than \<open>children\<close> and the
  back reference \<open>parent\<close> form the record \<open>node_fields\<close>. The fields \<open>id\<close>, \<open>text\<close>,
  \<open>type\<close>, \<open>x\<close> and \<open>y\<close> carry the prefix \<open>node_\<close>. A coordinate that is \<open>undefined\<close>
  is \<open>None\<close>, and so are the optional \<open>color\<close> and \<open>collapsed\<close> when they are absent.
  The numbers the layout computes are multiples of one half of a moderate size, which
  double precision represents exactly, so they are modelled as reals.
\<close>

datatype node_type = Header | ListItem

datatype node_color = Red | Blue | Green | Orange | Purple | Default

record node_fields =
  node_id :: jsstring
  node_text :: jsstring
  level :: int
  node_type :: node_type
  node_x :: "real option"
  node_y :: "real option"
  lineNumber :: int
  originalText :: jsstring
  hasWikilink :: bool
  wikilinks :: "jsstring list"
  color :: "node_color option"
  collapsed :: "bool option"

datatype MindmapNodeData = Node (fields: node_fields) (children: "MindmapNodeData list")

section \<open>The parser\<close>

subsection \<open>One line\<close>

text \<open>
  \<open>extractWikilinks\<close>: the loop \<open>while ((match = wikilinkRegex.exec(text)) !== null)\<close>
  with the global flag looks for the next match from where the last one ended; of every
  match it keeps \<open>match[1].split('|')[0].trim()\<close>. The text itself is returned as it is.
\<close>

lemma wikilink_match_advances:
  assumes "rx_match False wikilinkRegex s = Some ps"
  shows "length (drop (length (concat ps)) s) < length s"
proof -
  from rx_match_sound[OF assms] obtain r
    where ok: "list_all2 item_ok wikilinkRegex ps" and s: "s = concat ps @ r"
    by blast
  from ok obtain p qs where "ps = p # qs" "item_ok (Rep (\<lambda>c. c = 91) 1 (Some 1)) p"
    by (auto simp: wikilinkRegex_def list_all2_Cons1)
  then have "concat ps \<noteq> []" by (auto simp: item_ok_def)
  then have "0 < length (concat ps)" by simp
  moreover have "length s = length (concat ps) + length r"
    using s by (metis length_append)
  ultimately show ?thesis by simp
qed

function extractWikilinks_loop :: "jsstring \<Rightarrow> jsstring list" where
  "extractWikilinks_loop s =
     (case rx_match False wikilinkRegex s of
        Some ps \<Rightarrow>
          trim (takeWhile (\<lambda>c. c \<noteq> 124) (ps ! 2))
            # extractWikilinks_loop (drop (length (concat ps)) s)
      | None \<Rightarrow> (case s of [] \<Rightarrow> [] | c # cs \<Rightarrow> extractWikilinks_loop cs))"
  by pat_completeness auto
termination
proof (relation "measure length")
  show "wf (measure length)" by simp
next
  fix s :: jsstring and ps
  assume "rx_match False wikilinkRegex s = Some ps"
  then show "(drop (length (concat ps)) s, s) \<in> measure length"
    using wikilink_match_advances by simp
next
  fix s :: jsstring and c cs
  assume "s = c # cs"
  then show "(cs, s) \<in> measure length" by simp
qed

declare extractWikilinks_loop.simps [simp del]

definition extractWikilinks :: "jsstring \<Rightarrow> jsstring \<times> jsstring list" where
  "extractWikilinks t = (t, extractWikilinks_loop t)"

text \<open>
  \<open>parseLine(line, lineNumber, id)\<close>: a header is looked for in the trimmed line, a list
  item in the line as it is; \<open>None\<close> is \<open>null\<close>. The width of an indentation counts a tab
  as four and any other white space as one.
\<close>

definition indentLength :: "jsstring \<Rightarrow> nat" where
  "indentLength indent = sum_list (map (\<lambda>c. if c = 9 then 4 else 1) indent)"

definition parseLine :: "jsstring \<Rightarrow> int \<Rightarrow> nat \<Rightarrow> MindmapNodeData option" where
  "parseLine line lineNo idn =
     (let trimmedLine = trim line in
      case rx_match True headerRegex trimmedLine of
        Some headerMatch \<Rightarrow>
          (let lvl = int (length (headerMatch ! 0));
               (cleanText, links) = extractWikilinks (headerMatch ! 2)
           in Some (Node \<lparr> node_id = js ''node-'' @ decimal idn, node_text = cleanText,
                            level = lvl, node_type = Header, node_x = None, node_y = None,
                            lineNumber = lineNo, originalText = line,
                            hasWikilink = (links \<noteq> []), wikilinks = links,
                            color = Some (if lvl = 1 then Red else Default),
                            collapsed = None \<rparr> []))
      | None \<Rightarrow>
          (case rx_match True listRegex line of
             Some listMatch \<Rightarrow>
               (let indentLevel = int (indentLength (listMatch ! 0) div 4) + 1;
                    (cleanText, links) = extractWikilinks (listMatch ! 3)
                in Some (Node \<lparr> node_id = js ''node-'' @ decimal idn, node_text = cleanText,
                                 level = indentLevel + 6, node_type = ListItem,
                                 node_x = None, node_y = None,
                                 lineNumber = lineNo, originalText = line,
                                 hasWikilink = (links \<noteq> []), wikilinks = links,
                                 color = None, collapsed = None \<rparr> []))
           | None \<Rightarrow> None))"

subsection \<open>How a line is classified\<close>

lemma set_trim: "set (trim s) \<subseteq> set s"
proof -
  have "set (trim s) = set (dropWhile is_space (rev (dropWhile is_space s)))"
    by (simp add: trim_def)
  also have "\<dots> \<subseteq> set (rev (dropWhile is_space s))" by (rule set_dropWhileD[THEN subsetI])
  also have "\<dots> \<subseteq> set s" using set_dropWhileD by fastforce
  finally show ?thesis .
qed

lemma dropWhile_snoc_keep: "\<not> P a \<Longrightarrow> dropWhile P (xs @ [a]) = dropWhile P xs @ [a]"
  by (induction xs) auto

lemma trim_indent_dash:
  assumes "list_all is_space ind" and "\<not> is_space c"
  shows "\<exists>r. trim (ind @ c # rest) = c # r"
proof -
  have "dropWhile is_space (ind @ c # rest) = c # rest"
    using assms by (induction ind) auto
  then have "trim (ind @ c # rest) = rev (dropWhile is_space (rev rest @ [c]))"
    by (simp add: trim_def)
  also have "\<dots> = c # rev (dropWhile is_space (rev rest))"
    using assms(2) by (simp add: dropWhile_snoc_keep)
  finally show ?thesis by blast
qed

lemma class_prefix_unique:
  "list_all P a \<Longrightarrow> list_all P b \<Longrightarrow> \<not> P u \<Longrightarrow> \<not> P v \<Longrightarrow> a @ u # r = b @ v # r' \<Longrightarrow>
     a = b \<and> u = v \<and> r = r'"
proof (induction a arbitrary: b)
  case Nil
  then show ?case by (cases b) auto
next
  case (Cons x a)
  then show ?case by (cases b) auto
qed

lemma not_space_hash: "\<not> is_space 35" and not_space_dash: "\<not> is_space 45"
  by (simp_all add: is_space_def)

lemma headerRegex_pieces:
  assumes "rx_match True headerRegex s = Some hm"
  shows "\<exists>h w t. hm = [h, w, t] \<and> s = h @ w @ t \<and> list_all (\<lambda>c. c = 35) h \<and> 1 \<le> length h \<and>
           length h \<le> 6 \<and> w \<noteq> [] \<and> list_all is_space w \<and> t \<noteq> [] \<and> list_all is_dot t"
proof -
  from rx_match_sound[OF assms] obtain r
    where ok: "list_all2 item_ok headerRegex hm" and s: "s = concat hm @ r" and r: "r = []"
    by blast
  from ok obtain h w t where hm: "hm = [h, w, t]"
    and "item_ok (Rep (\<lambda>c. c = 35) 1 (Some 6)) h" "item_ok (Rep is_space 1 None) w"
      "item_ok (Rep is_dot 1 None) t"
    by (auto simp: headerRegex_def list_all2_Cons1)
  then show ?thesis using s r by (auto simp: item_ok_def)
qed

lemma listRegex_pieces:
  assumes "rx_match True listRegex s = Some lm"
  shows "\<exists>i w t. lm = [i, [45], w, t] \<and> s = i @ 45 # w @ t \<and> list_all is_space i \<and>
           w \<noteq> [] \<and> list_all is_space w \<and> t \<noteq> [] \<and> list_all is_dot t"
proof -
  from rx_match_sound[OF assms] obtain r
    where ok: "list_all2 item_ok listRegex lm" and s: "s = concat lm @ r" and r: "r = []"
    by blast
  from ok obtain i d w t where lm: "lm = [i, d, w, t]"
    and "item_ok (Rep is_space 0 None) i" "item_ok (Rep (\<lambda>c. c = 45) 1 (Some 1)) d"
      "item_ok (Rep is_space 1 None) w" "item_ok (Rep is_dot 1 None) t"
    by (auto simp: listRegex_def list_all2_Cons1)
  moreover then have "d = [45]" by (cases d) (auto simp: item_ok_def)
  ultimately show ?thesis using s r by (auto simp: item_ok_def)
qed


lemma headerRegex_on_shape:
  assumes "1 \<le> k" "k \<le> 6" "ws \<noteq> []" "list_all is_space ws" "tx \<noteq> []" "list_all is_dot tx"
  shows "\<exists>w t. rx_match True headerRegex (replicate k 35 @ ws @ tx) = Some [replicate k 35, w, t]
           \<and> w @ t = ws @ tx \<and> w \<noteq> [] \<and> list_all is_space w \<and> t \<noteq> []"
proof -
  let ?s = "replicate k 35 @ ws @ tx"
  have "list_all2 item_ok headerRegex [replicate k 35, ws, tx]"
    using assms by (simp add: headerRegex_def item_ok_def list_all_length Suc_le_eq)
  moreover have "?s = concat [replicate k 35, ws, tx] @ []" by simp
  ultimately have "rx_match True headerRegex ?s \<noteq> None"
    by (rule rx_match_complete) simp
  then obtain hm where hm: "rx_match True headerRegex ?s = Some hm" by blast
  from headerRegex_pieces[OF hm] obtain h w t where p: "hm = [h, w, t]" "?s = h @ w @ t"
    "list_all (\<lambda>c. c = 35) h" "w \<noteq> []" "list_all is_space w" "t \<noteq> []"
    by blast
  obtain w0 w' where w: "w = w0 # w'" using p(4) by (cases w) auto
  obtain s0 ws' where ws: "ws = s0 # ws'" using assms(3) by (cases ws) auto
  have "h @ w0 # (w' @ t) = replicate k 35 @ s0 # (ws' @ tx)"
    using p(2) w ws by simp
  moreover have "w0 \<noteq> 35" "s0 \<noteq> 35" using p(5) assms(4) w ws not_space_hash by auto
  moreover have "list_all (\<lambda>c. c = 35) (replicate k (35::nat))" by (simp add: list_all_length)
  ultimately have "h = replicate k 35 \<and> w0 = s0 \<and> w' @ t = ws' @ tx"
    using p(3) class_prefix_unique[of "\<lambda>c. c = 35" h "replicate k 35" w0 s0 "w' @ t" "ws' @ tx"]
    by simp
  then show ?thesis using hm p w ws by simp
qed

lemma listRegex_on_shape:
  assumes "list_all is_space ind" "ws \<noteq> []" "list_all is_space ws" "tx \<noteq> []" "list_all is_dot tx"
  shows "\<exists>w t. rx_match True listRegex (ind @ 45 # ws @ tx) = Some [ind, [45], w, t]
           \<and> w @ t = ws @ tx \<and> w \<noteq> [] \<and> list_all is_space w \<and> t \<noteq> []"
proof -
  let ?s = "ind @ 45 # ws @ tx"
  have "list_all2 item_ok listRegex [ind, [45], ws, tx]"
    using assms by (simp add: listRegex_def item_ok_def Suc_le_eq)
  moreover have "?s = concat [ind, [45], ws, tx] @ []" by simp
  ultimately have "rx_match True listRegex ?s \<noteq> None"
    by (rule rx_match_complete) simp
  then obtain lm where lm: "rx_match True listRegex ?s = Some lm" by blast
  from listRegex_pieces[OF lm] obtain i w t where p: "lm = [i, [45], w, t]" "?s = i @ 45 # w @ t"
    "list_all is_space i" "w \<noteq> []" "list_all is_space w" "t \<noteq> []"
    by blast
  have eq: "i @ 45 # w @ t = ind @ 45 # ws @ tx" by (rule p(2)[symmetric])
  from class_prefix_unique[OF p(3) assms(1) not_space_dash not_space_dash eq]
  have "i = ind" and "w @ t = ws @ tx" by simp_all
  with lm p(1,4,5,6) have "rx_match True listRegex ?s = Some [ind, [45], w, t]
      \<and> w @ t = ws @ tx \<and> w \<noteq> [] \<and> list_all is_space w \<and> t \<noteq> []"
    by simp
  then show ?thesis by blast
qed

lemma headerRegex_no_hash: "s = [] \<or> hd s \<noteq> 35 \<Longrightarrow> rx_match True headerRegex s = None"
  by (cases s) (simp_all add: headerRegex_def run_length_def)

definition header_shape :: "jsstring \<Rightarrow> nat \<Rightarrow> bool" where
  "header_shape s k \<longleftrightarrow>
     1 \<le> k \<and> k \<le> 6 \<and>
     (\<exists>ws tx. s = replicate k 35 @ ws @ tx \<and> ws \<noteq> [] \<and> list_all is_space ws \<and> tx \<noteq> [])"

definition list_shape :: "jsstring \<Rightarrow> jsstring \<Rightarrow> bool" where
  "list_shape s indent \<longleftrightarrow>
     list_all is_space indent \<and>
     (\<exists>ws tx. s = indent @ 45 # ws @ tx \<and> ws \<noteq> [] \<and> list_all is_space ws \<and> tx \<noteq> [])"

lemma no_terminator_dot: "list_all (\<lambda>c. \<not> is_line_terminator c) s \<Longrightarrow> set t \<subseteq> set s \<Longrightarrow> list_all is_dot t"
  by (auto simp: list_all_iff is_dot_def)

lemma parseLine_header:
  assumes nt: "list_all (\<lambda>c. \<not> is_line_terminator c) (trim line)"
    and hs: "header_shape (trim line) k"
  shows "\<exists>n. parseLine line i idn = Some n \<and> node_type (fields n) = Header \<and>
           level (fields n) = int k"
proof -
  from hs obtain ws tx where k: "1 \<le> k" "k \<le> 6"
    and s: "trim line = replicate k 35 @ ws @ tx" "ws \<noteq> []" "list_all is_space ws" "tx \<noteq> []"
    by (auto simp: header_shape_def)
  have "set tx \<subseteq> set (trim line)" using s(1) by auto
  with nt have "list_all is_dot tx" by (rule no_terminator_dot)
  from headerRegex_on_shape[OF k s(2,3,4) this] obtain w t
    where "rx_match True headerRegex (trim line) = Some [replicate k 35, w, t]"
    using s(1) by auto
  then show ?thesis
    by (simp add: parseLine_def Let_def extractWikilinks_def)
qed

lemma parseLine_list:
  assumes nt: "list_all (\<lambda>c. \<not> is_line_terminator c) line" and ls: "list_shape line ind"
  shows "\<exists>n. parseLine line i idn = Some n \<and> node_type (fields n) = ListItem \<and>
           level (fields n) = int (indentLength ind div 4) + 1 + 6"
proof -
  from ls obtain ws tx where ind: "list_all is_space ind"
    and s: "line = ind @ 45 # ws @ tx" "ws \<noteq> []" "list_all is_space ws" "tx \<noteq> []"
    by (auto simp: list_shape_def)
  have "set tx \<subseteq> set line" using s(1) by auto
  with nt have "list_all is_dot tx" by (rule no_terminator_dot)
  from listRegex_on_shape[OF ind s(2,3,4) this] obtain w t
    where lm: "rx_match True listRegex line = Some [ind, [45], w, t]"
    using s(1) by auto
  from trim_indent_dash[OF ind not_space_dash] obtain r where "trim line = 45 # r"
    using s(1) by blast
  then have "rx_match True headerRegex (trim line) = None"
    by (intro headerRegex_no_hash) simp
  with lm show ?thesis
    by (simp add: parseLine_def Let_def extractWikilinks_def)
qed

lemma all_same_replicate: "list_all (\<lambda>c. c = a) h \<Longrightarrow> replicate (length h) a = h"
  by (induction h) auto

lemma parseLine_Some_shape:
  assumes "parseLine line i idn = Some n"
  shows "(\<exists>k. header_shape (trim line) k) \<or> (\<exists>ind. list_shape line ind)"
proof (cases "rx_match True headerRegex (trim line)")
  case (Some hm)
  from headerRegex_pieces[OF Some] obtain h w t where p: "trim line = h @ w @ t"
    "list_all (\<lambda>c. c = 35) h" "1 \<le> length h" "length h \<le> 6" "w \<noteq> []" "list_all is_space w" "t \<noteq> []"
    by blast
  have hrep: "replicate (length h) 35 = h" using p(2) by (rule all_same_replicate)
  have "trim line = replicate (length h) 35 @ w @ t" by (simp add: p(1) hrep)
  with p(3-7) have "header_shape (trim line) (length h)"
    unfolding header_shape_def by blast
  then show ?thesis by blast
next
  case None
  with assms obtain lm where lm: "rx_match True listRegex line = Some lm"
    by (auto simp: parseLine_def Let_def split: option.splits)
  from listRegex_pieces[OF lm] have "\<exists>ind. list_shape line ind"
    unfolding list_shape_def by blast
  then show ?thesis by blast
qed

lemmas string_eval = js_def trim_def is_space_def is_dot_def is_line_terminator_def run_length_def
  headerRegex_def listRegex_def

text \<open>
  How \<open>parseLine\<close> classifies a line, for every line number and identifier:
  \<^item> when the trimmed line is 1 to 6 \<open>#\<close>, then white space, then text, and holds no line
    terminator, the parser makes a header whose level is the number of \<open>#\<close>;
  \<^item> when the line is white space (possibly none), then \<open>-\<close>, then white space, then
    text, and holds no line terminator, the parser makes a list item whose level is the
    width of the indentation (a tab counting four) divided by four and rounded down,
    plus 1, plus 6;
  \<^item> a line of neither shape makes no node, and nothing is raised.

  The header is looked for in the trimmed line and the list item in the line as it is: a
  carriage return at the end of a line is trimmed away for a header and is in the way for
  a list item.
\<close>

theorem parseLine_classification:
  "(\<forall>k. header_shape (trim line) k \<longrightarrow> list_all (\<lambda>c. \<not> is_line_terminator c) (trim line) \<longrightarrow>
       (\<exists>n. parseLine line i idn = Some n \<and> node_type (fields n) = Header \<and>
            level (fields n) = int k))
   \<and> (\<forall>ind. list_shape line ind \<longrightarrow> list_all (\<lambda>c. \<not> is_line_terminator c) line \<longrightarrow>
       (\<exists>n. parseLine line i idn = Some n \<and> node_type (fields n) = ListItem \<and>
            level (fields n) = int (indentLength ind div 4) + 1 + 6))
   \<and> ((\<forall>k. \<not> header_shape (trim line) k) \<and> (\<forall>ind. \<not> list_shape line ind) \<longrightarrow>
        parseLine line i idn = None)"
proof (intro conjI allI impI)
  fix k assume "header_shape (trim line) k" "list_all (\<lambda>c. \<not> is_line_terminator c) (trim line)"
  then show "\<exists>n. parseLine line i idn = Some n \<and> node_type (fields n) = Header \<and>
      level (fields n) = int k"
    by (intro parseLine_header)
next
  fix ind assume "list_shape line ind" "list_all (\<lambda>c. \<not> is_line_terminator c) line"
  then show "\<exists>n. parseLine line i idn = Some n \<and> node_type (fields n) = ListItem \<and>
      level (fields n) = int (indentLength ind div 4) + 1 + 6"
    by (intro parseLine_list)
next
  assume "(\<forall>k. \<not> header_shape (trim line) k) \<and> (\<forall>ind. \<not> list_shape line ind)"
  then show "parseLine line i idn = None"
    using parseLine_Some_shape[of line i idn] by (cases "parseLine line i idn") auto
qed

theorem parseLine_classification_witness:
  "list_all (\<lambda>c. \<not> is_line_terminator c) (9 # js ''- a'')
   \<and> list_shape (9 # js ''- a'') [9]
   \<and> (\<exists>n. parseLine (9 # js ''- a'') 0 1 = Some n \<and> node_type (fields n) = ListItem \<and>
          level (fields n) = 8)
   \<and> trim (js ''## a'' @ [13]) = js ''## a''
   \<and> header_shape (js ''## a'') 2
   \<and> (\<exists>n. parseLine (js ''## a'' @ [13]) 0 1 = Some n \<and> node_type (fields n) = Header \<and>
          level (fields n) = 2)
   \<and> parseLine (js ''text'') 0 1 = None"
proof -
  have h: "list_all (\<lambda>c. \<not> is_line_terminator c) (9 # js ''- a'')"
    by (simp add: string_eval)
  have "9 # js ''- a'' = [9] @ 45 # [32] @ [97]" by (simp add: js_def)
  then have s: "list_shape (9 # js ''- a'') [9]"
    unfolding list_shape_def by (intro conjI exI[of _ "[32]"] exI[of _ "[97]"]) (simp_all add: is_space_def)
  from parseLine_classification[of "9 # js ''- a''" 0 1] s h
  have "\<exists>n. parseLine (9 # js ''- a'') 0 1 = Some n \<and> node_type (fields n) = ListItem \<and>
          level (fields n) = int (indentLength [9] div 4) + 1 + 6"
    by blast
  then have 1: "\<exists>n. parseLine (9 # js ''- a'') 0 1 = Some n \<and> node_type (fields n) = ListItem \<and>
          level (fields n) = 8"
    by (simp add: indentLength_def)
  have t: "trim (js ''## a'' @ [13]) = js ''## a''" by (simp add: string_eval)
  have "js ''## a'' = replicate 2 35 @ [32] @ [97]" by (simp add: js_def numeral_2_eq_2)
  then have hs: "header_shape (js ''## a'') 2"
    unfolding header_shape_def by (intro conjI exI[of _ "[32]"] exI[of _ "[97]"]) (simp_all add: is_space_def)
  have ht: "list_all (\<lambda>c. \<not> is_line_terminator c) (js ''## a'')" by (simp add: string_eval)
  from parseLine_classification[of "js ''## a'' @ [13]" 0 1] hs ht
  have 2: "\<exists>n. parseLine (js ''## a'' @ [13]) 0 1 = Some n \<and> node_type (fields n) = Header \<and>
          level (fields n) = 2"
    unfolding t by fastforce
  have 3: "parseLine (js ''text'') 0 1 = None" by (simp add: parseLine_def string_eval)
  from h s 1 t hs 2 3 show ?thesis by (intro conjI)
qed

text \<open>
  Claim C8 fails in \<open>parseLine\<close> on a list line that ends in a carriage return, as every
  list line of a file with CR LF line ends does. The line \<open>- a\<close> followed by a carriage
  return is white space (none), then \<open>-\<close>, then white space, then text, and makes no
  node: the list expression is matched against the line as it is, \<open>.\<close> does not match
  the carriage return and \<open>$\<close> does not match before it. The header \<open># a\<close> followed by a
  carriage return is matched after trimming and makes a node, and so does the list line
  without the carriage return.
\<close>

theorem parseLine_carriage_return_list_dropped:
  "list_shape (js ''- a'' @ [13]) []
   \<and> parseLine (js ''- a'' @ [13]) 1 2 = None
   \<and> map_option (\<lambda>n. (node_type (fields n), level (fields n), node_text (fields n)))
        (parseLine (js ''# a'' @ [13]) 0 1) = Some (Header, 1, js ''a'')
   \<and> map_option (\<lambda>n. (node_type (fields n), level (fields n), node_text (fields n)))
        (parseLine (js ''- a'') 1 2) = Some (ListItem, 7, js ''a'')"
proof -
  have "js ''- a'' @ [13] = [] @ 45 # [32] @ [97, 13]" by (simp add: js_def)
  then have "list_shape (js ''- a'' @ [13]) []"
    unfolding list_shape_def by (intro conjI exI[of _ "[32]"] exI[of _ "[97, 13]"]) (simp_all add: is_space_def)
  moreover have "parseLine (js ''- a'' @ [13]) 1 2 = None"
    by (simp add: parseLine_def string_eval)
  moreover have "map_option (\<lambda>n. (node_type (fields n), level (fields n), node_text (fields n)))
        (parseLine (js ''# a'' @ [13]) 0 1) = Some (Header, 1, js ''a'')"
    by (simp add: parseLine_def extractWikilinks_def string_eval)
  moreover have "map_option (\<lambda>n. (node_type (fields n), level (fields n), node_text (fields n)))
        (parseLine (js ''- a'') 1 2) = Some (ListItem, 7, js ''a'')"
    by (simp add: parseLine_def extractWikilinks_def indentLength_def string_eval)
  ultimately show ?thesis by (intro conjI)
qed

subsection \<open>References\<close>

text \<open>
  The parser holds references to nodes of the tree it is building, on its stack. A
  reference is modelled by the path from the root to the node: the positions to take in
  the successive \<open>children\<close> arrays. The parser only ever appends children, so a path
  keeps denoting the same node. \<open>node_at\<close> follows a reference, \<open>update_at\<close> changes the
  node it denotes in place. The back reference \<open>parent\<close> of a node is the path without
  its last step.
\<close>

type_synonym node_ref = "nat list"

fun node_at :: "MindmapNodeData \<Rightarrow> node_ref \<Rightarrow> MindmapNodeData option" where
  "node_at n [] = Some n"
| "node_at n (i # p) =
     (if i < length (children n) then node_at (children n ! i) p else None)"

fun update_at ::
  "(MindmapNodeData \<Rightarrow> MindmapNodeData) \<Rightarrow> node_ref \<Rightarrow> MindmapNodeData \<Rightarrow> MindmapNodeData" where
  "update_at f [] n = f n"
| "update_at f (i # p) n =
     (if i < length (children n)
      then Node (fields n) ((children n)[i := update_at f p (children n ! i)])
      else n)"

text \<open>\<open>parentNode.children.push(node)\<close>.\<close>

definition push_child :: "MindmapNodeData \<Rightarrow> MindmapNodeData \<Rightarrow> MindmapNodeData" where
  "push_child c n = Node (fields n) (children n @ [c])"

text \<open>\<open>stackNode.level\<close>, read through a reference. Every reference on the stack
  denotes a node (\<open>stack_refs_valid\<close> below), so the second case is never taken.\<close>

definition level_at :: "MindmapNodeData \<Rightarrow> node_ref \<Rightarrow> int" where
  "level_at rt r = (case node_at rt r of Some n \<Rightarrow> level (fields n) | None \<Rightarrow> 0)"

subsection \<open>The stack of open ancestors\<close>

text \<open>
  \<open>findParentNode\<close>: the loop runs \<open>i\<close> from \<open>nodeStack.length - 1\<close> down to \<open>0\<close> (the
  counter of the model is \<open>i + 1\<close>) and returns the first entry whose level is smaller
  than the new node's; after the loop it returns \<open>nodeStack[0]\<close>, which is \<open>undefined\<close>
  (\<open>None\<close>) on an empty stack.
\<close>

fun findParentNode_loop ::
  "MindmapNodeData \<Rightarrow> node_ref list \<Rightarrow> int \<Rightarrow> nat \<Rightarrow> node_ref option" where
  "findParentNode_loop rt nodeStack l 0 = (case nodeStack of [] \<Rightarrow> None | r # _ \<Rightarrow> Some r)"
| "findParentNode_loop rt nodeStack l (Suc i) =
     (if level_at rt (nodeStack ! i) < l then Some (nodeStack ! i)
      else findParentNode_loop rt nodeStack l i)"

definition findParentNode ::
  "MindmapNodeData \<Rightarrow> node_ref list \<Rightarrow> MindmapNodeData \<Rightarrow> node_ref option" where
  "findParentNode rt nodeStack currentNode =
     findParentNode_loop rt nodeStack (level (fields currentNode)) (length nodeStack)"

text \<open>\<open>updateNodeStack\<close>: pop while the stack is not empty and its top has a level at
  least the new node's, then push the new node (its reference).\<close>

function updateNodeStack_loop ::
  "MindmapNodeData \<Rightarrow> node_ref list \<Rightarrow> int \<Rightarrow> node_ref list" where
  "updateNodeStack_loop rt nodeStack l =
     (if nodeStack \<noteq> [] \<and> l \<le> level_at rt (last nodeStack)
      then updateNodeStack_loop rt (butlast nodeStack) l
      else nodeStack)"
  by pat_completeness auto
termination
  by (relation "measure (\<lambda>(rt, nodeStack, l). length nodeStack)") auto

declare updateNodeStack_loop.simps [simp del]

definition updateNodeStack ::
  "MindmapNodeData \<Rightarrow> node_ref list \<Rightarrow> MindmapNodeData \<Rightarrow> node_ref \<Rightarrow> node_ref list" where
  "updateNodeStack rt nodeStack currentNode r =
     updateNodeStack_loop rt nodeStack (level (fields currentNode)) @ [r]"

subsection \<open>The document\<close>

datatype js_error = TypeError | RangeError

text \<open>The root: its text is the three code units U+6839 U+8282 U+70B9.\<close>

definition root_node :: MindmapNodeData where
  "root_node =
     Node \<lparr> node_id = js ''root'', node_text = [26681, 33410, 28857], level = 0,
            node_type = Header, node_x = None, node_y = None, lineNumber = - 1,
            originalText = [], hasWikilink = False, wikilinks = [],
            color = None, collapsed = None \<rparr> []"

text \<open>
  The state of the loop of \<open>parseMarkdown\<close> is the tree, the stack and \<open>currentId\<close>.
  One round, for line \<open>i\<close>: a blank line is skipped; \<open>currentId\<close> is incremented before
  \<open>parseLine\<close> is called, also when it returns \<open>null\<close>; the node is appended to the
  children of the parent found, and the stack is updated. Using an undefined parent
  raises a TypeError.
\<close>

type_synonym parse_state = "MindmapNodeData \<times> node_ref list \<times> nat"

definition parse_step :: "parse_state \<Rightarrow> jsstring \<Rightarrow> int \<Rightarrow> js_error + parse_state" where
  "parse_step st line i =
     (case st of (rt, nodeStack, currentId) \<Rightarrow>
        if trim line = [] then Inr (rt, nodeStack, currentId)
        else
          (case parseLine line i currentId of
             None \<Rightarrow> Inr (rt, nodeStack, currentId + 1)
           | Some node \<Rightarrow>
               (case findParentNode rt nodeStack node of
                  None \<Rightarrow> Inl TypeError
                | Some pr \<Rightarrow>
                    (case node_at rt pr of
                       None \<Rightarrow> Inl TypeError
                     | Some parentNode \<Rightarrow>
                         (let rt' = update_at (push_child node) pr rt;
                              r = pr @ [length (children parentNode)]
                          in Inr (rt', updateNodeStack rt' nodeStack node r, currentId + 1))))))"

fun parse_lines :: "parse_state \<Rightarrow> jsstring list \<Rightarrow> int \<Rightarrow> js_error + parse_state" where
  "parse_lines st [] i = Inr st"
| "parse_lines st (l # ls) i =
     (case parse_step st l i of Inl e \<Rightarrow> Inl e | Inr st' \<Rightarrow> parse_lines st' ls (i + 1))"

definition parseMarkdown :: "jsstring \<Rightarrow> js_error + MindmapNodeData" where
  "parseMarkdown content =
     (case parse_lines (root_node, [[]], 1) (split_lines content) 0 of
        Inl e \<Rightarrow> Inl e
      | Inr (rt, nodeStack, currentId) \<Rightarrow> Inr rt)"

section \<open>The serializer\<close>

text \<open>
  A string of the engine holds at most \<open>2^29 - 24\<close> code units (V8, the engine the
  application runs on); an operation whose result would be longer raises a RangeError.
  \<open>generateMarkdown\<close> builds strings in three places: \<open>repeat\<close>, the template literal of a
  line, and \<open>join\<close>. \<open>js_string\<close> is the check made on the result of the latter two.
\<close>

definition max_string_length :: nat where
  "max_string_length = 536870888"

definition js_string :: "jsstring \<Rightarrow> js_error + jsstring" where
  "js_string s = (if max_string_length < length s then Inl RangeError else Inr s)"

text \<open>
  \<open>generateMarkdown\<close>. \<open>'#'.repeat(n)\<close> raises a RangeError on a negative count and on a
  count above the greatest length of a string. The nested function \<open>traverse\<close> is called
  without a receiver, so \<open>this\<close> is undefined in it, and \<open>this.restoreWikilinks(...)\<close>,
  which is evaluated for a node with \<open>hasWikilink\<close> set and some \<open>wikilinks\<close>, raises a
  TypeError. An exception leaves \<open>generateMarkdown\<close> with no text.
\<close>

definition repeat :: "jschar \<Rightarrow> int \<Rightarrow> js_error + jsstring" where
  "repeat c n =
     (if n < 0 \<or> int max_string_length < n then Inl RangeError
      else Inr (replicate (nat n) c))"

definition line_text :: "node_fields \<Rightarrow> js_error + jsstring" where
  "line_text f =
     (if hasWikilink f \<and> wikilinks f \<noteq> [] then Inl TypeError else Inr (node_text f))"

definition node_line :: "node_fields \<Rightarrow> js_error + jsstring" where
  "node_line f =
     (case node_type f of
        Header \<Rightarrow>
          (case repeat 35 (level f) of
             Inl e \<Rightarrow> Inl e
           | Inr headerLevel \<Rightarrow>
               (case line_text f of
                  Inl e \<Rightarrow> Inl e
                | Inr t \<Rightarrow> js_string (headerLevel @ 32 # t)))
      | ListItem \<Rightarrow>
          (case repeat 9 (max 0 (level f - 7)) of
             Inl e \<Rightarrow> Inl e
           | Inr indent \<Rightarrow>
               (case line_text f of
                  Inl e \<Rightarrow> Inl e
                | Inr t \<Rightarrow> js_string (indent @ 45 # 32 # t))))"

fun traverse :: "MindmapNodeData \<Rightarrow> js_error + jsstring list"
  and traverse_children :: "MindmapNodeData list \<Rightarrow> js_error + jsstring list" where
  "traverse (Node f cs) =
     (if node_id f = js ''root'' then traverse_children cs
      else
        (case node_line f of
           Inl e \<Rightarrow> Inl e
         | Inr l \<Rightarrow>
             (case traverse_children cs of Inl e \<Rightarrow> Inl e | Inr ls \<Rightarrow> Inr (l # ls))))"
| "traverse_children [] = Inr []"
| "traverse_children (c # cs) =
     (case traverse c of
        Inl e \<Rightarrow> Inl e
      | Inr a \<Rightarrow> (case traverse_children cs of Inl e \<Rightarrow> Inl e | Inr b \<Rightarrow> Inr (a @ b)))"

definition generateMarkdown :: "MindmapNodeData \<Rightarrow> js_error + jsstring" where
  "generateMarkdown rootNode =
     (case traverse rootNode of Inl e \<Rightarrow> Inl e | Inr ls \<Rightarrow> js_string (join_lines ls))"

section \<open>Where the parser attaches a node\<close>

subsection \<open>The two stack operations\<close>

lemma findParentNode_loop_find:
  "i \<le> length st \<Longrightarrow>
   findParentNode_loop rt st l i =
     (case find (\<lambda>r. level_at rt r < l) (rev (take i st)) of
        Some r \<Rightarrow> Some r
      | None \<Rightarrow> (case st of [] \<Rightarrow> None | r # _ \<Rightarrow> Some r))"
proof (induction i)
  case 0
  then show ?case by simp
next
  case (Suc i)
  then have "take (Suc i) st = take i st @ [st ! i]"
    by (simp add: take_Suc_conv_app_nth)
  with Suc show ?case by simp
qed

lemma findParentNode_find:
  "findParentNode rt st n =
     (case find (\<lambda>r. level_at rt r < level (fields n)) (rev st) of
        Some r \<Rightarrow> Some r
      | None \<Rightarrow> (case st of [] \<Rightarrow> None | r # _ \<Rightarrow> Some r))"
  by (simp add: findParentNode_def findParentNode_loop_find)

lemma updateNodeStack_loop_dropWhile:
  "updateNodeStack_loop rt st l = rev (dropWhile (\<lambda>r. l \<le> level_at rt r) (rev st))"
proof (induction st rule: rev_induct)
  case Nil
  then show ?case by (simp add: updateNodeStack_loop.simps)
next
  case (snoc x xs)
  show ?case
    by (subst updateNodeStack_loop.simps) (simp add: snoc)
qed

lemma updateNodeStack_dropWhile:
  "updateNodeStack rt st n r =
     rev (dropWhile (\<lambda>r. level (fields n) \<le> level_at rt r) (rev st)) @ [r]"
  by (simp add: updateNodeStack_def updateNodeStack_loop_dropWhile)

subsection \<open>The nodes and the parent-child pairs of a tree\<close>

text \<open>\<open>all_nodes\<close> lists the fields of the nodes of a tree, the root first, in document
  order; \<open>edges\<close> lists the pairs of a parent and one of its children.\<close>

fun all_nodes :: "MindmapNodeData \<Rightarrow> node_fields list" where
  "all_nodes (Node f cs) = f # concat (map all_nodes cs)"

fun edges :: "MindmapNodeData \<Rightarrow> (node_fields \<times> node_fields) list" where
  "edges (Node f cs) = map (\<lambda>c. (f, fields c)) cs @ concat (map edges cs)"

lemma fields_update_at_push: "fields (update_at (push_child c) p n) = fields n"
  by (cases p) (simp_all add: push_child_def)

lemma node_at_push_new:
  "node_at rt pr = Some parent \<Longrightarrow>
     node_at (update_at (push_child c) pr rt) (pr @ [length (children parent)]) = Some c"
proof (induction pr arbitrary: rt)
  case Nil
  then show ?case by (simp add: push_child_def nth_append)
next
  case (Cons i p)
  then show ?case by (simp split: if_splits)
qed

lemma node_at_push_old:
  "node_at rt r = Some n \<Longrightarrow>
     \<exists>n'. node_at (update_at (push_child c) pr rt) r = Some n' \<and> fields n' = fields n"
proof (induction r arbitrary: rt pr n)
  case Nil
  then show ?case by (simp add: fields_update_at_push)
next
  case (Cons i r)
  from Cons.prems have i: "i < length (children rt)" and n: "node_at (children rt ! i) r = Some n"
    by (simp_all split: if_splits)
  show ?case
  proof (cases pr)
    case Nil
    then show ?thesis using i n by (simp add: push_child_def nth_append)
  next
    case (Cons j p)
    show ?thesis
    proof (cases "j < length (children rt)")
      case False
      then show ?thesis using Cons.prems \<open>pr = j # p\<close> by simp
    next
      case True
      show ?thesis
      proof (cases "i = j")
        case True
        from Cons.IH[OF n, of p] show ?thesis using \<open>pr = j # p\<close> True i by simp
      next
        case False
        then show ?thesis using \<open>pr = j # p\<close> i n True by simp
      qed
    qed
  qed
qed

lemma set_concat_map_update:
  "i < length cs \<Longrightarrow>
     set (concat (map g (cs[i := x]))) =
       set (concat (map g (take i cs))) \<union> set (g x) \<union> set (concat (map g (drop (Suc i) cs)))"
  by (simp add: upd_conv_take_nth_drop Un_assoc)

lemma set_concat_map_nth:
  "i < length cs \<Longrightarrow>
     set (concat (map g cs)) =
       set (concat (map g (take i cs))) \<union> set (g (cs ! i)) \<union> set (concat (map g (drop (Suc i) cs)))"
proof -
  assume "i < length cs"
  then have "cs = take i cs @ cs ! i # drop (Suc i) cs" by (rule id_take_nth_drop)
  then have "set (concat (map g cs)) = set (concat (map g (take i cs @ cs ! i # drop (Suc i) cs)))"
    by simp
  then show ?thesis by (simp add: Un_assoc)
qed

lemma all_nodes_push:
  "node_at rt pr = Some parent \<Longrightarrow>
     set (all_nodes (update_at (push_child c) pr rt)) = set (all_nodes rt) \<union> set (all_nodes c)"
proof (induction pr arbitrary: rt)
  case Nil
  then show ?case by (cases rt) (auto simp: push_child_def)
next
  case (Cons i p)
  obtain f cs where rt: "rt = Node f cs" by (cases rt)
  from Cons.prems rt have i: "i < length cs" and n: "node_at (cs ! i) p = Some parent"
    by (simp_all split: if_splits)
  have "set (all_nodes (update_at (push_child c) (i # p) rt)) =
      insert f (set (concat (map all_nodes (cs[i := update_at (push_child c) p (cs ! i)]))))"
    using rt i by simp
  also have "\<dots> = insert f (set (concat (map all_nodes (take i cs))) \<union>
      set (all_nodes (update_at (push_child c) p (cs ! i))) \<union>
      set (concat (map all_nodes (drop (Suc i) cs))))"
    using i by (simp only: set_concat_map_update)
  also have "\<dots> = insert f (set (concat (map all_nodes (take i cs))) \<union>
      (set (all_nodes (cs ! i)) \<union> set (all_nodes c)) \<union>
      set (concat (map all_nodes (drop (Suc i) cs))))"
    using Cons.IH[OF n] by simp
  also have "\<dots> = insert f (set (concat (map all_nodes cs))) \<union> set (all_nodes c)"
    using set_concat_map_nth[OF i, of all_nodes] by auto
  finally show ?case using rt by simp
qed

lemma map_fields_update:
  "i < length cs \<Longrightarrow> fields x = fields (cs ! i) \<Longrightarrow>
     map (\<lambda>c. (f, fields c)) (cs[i := x]) = map (\<lambda>c. (f, fields c)) cs"
  by (simp add: map_update list_update_same_conv)

lemma edges_push:
  "node_at rt pr = Some parent \<Longrightarrow>
     set (edges (update_at (push_child c) pr rt)) =
       set (edges rt) \<union> {(fields parent, fields c)} \<union> set (edges c)"
proof (induction pr arbitrary: rt)
  case Nil
  then show ?case by (cases rt) (auto simp: push_child_def)
next
  case (Cons i p)
  obtain f cs where rt: "rt = Node f cs" by (cases rt)
  from Cons.prems rt have i: "i < length cs" and n: "node_at (cs ! i) p = Some parent"
    by (simp_all split: if_splits)
  let ?u = "update_at (push_child c) p (cs ! i)"
  have "set (edges (update_at (push_child c) (i # p) rt)) =
      set (map (\<lambda>c. (f, fields c)) (cs[i := ?u])) \<union> set (concat (map edges (cs[i := ?u])))"
    using rt i by simp
  also have "map (\<lambda>c. (f, fields c)) (cs[i := ?u]) = map (\<lambda>c. (f, fields c)) cs"
    using i by (intro map_fields_update) (simp_all add: fields_update_at_push)
  also have "set (concat (map edges (cs[i := ?u]))) =
      set (concat (map edges (take i cs))) \<union> set (edges ?u) \<union>
      set (concat (map edges (drop (Suc i) cs)))"
    using i by (simp only: set_concat_map_update)
  also have "set (edges ?u) = set (edges (cs ! i)) \<union> {(fields parent, fields c)} \<union> set (edges c)"
    using Cons.IH[OF n] .
  finally have "set (edges (update_at (push_child c) (i # p) rt)) =
      set (map (\<lambda>c. (f, fields c)) cs) \<union>
      (set (concat (map edges (take i cs))) \<union>
       (set (edges (cs ! i)) \<union> {(fields parent, fields c)} \<union> set (edges c)) \<union>
       set (concat (map edges (drop (Suc i) cs))))" .
  also have "\<dots> = set (map (\<lambda>c. (f, fields c)) cs) \<union> set (concat (map edges cs)) \<union>
      {(fields parent, fields c)} \<union> set (edges c)"
    using set_concat_map_nth[OF i, of edges] by auto
  finally show ?case using rt by simp
qed

subsection \<open>The invariant of the loop\<close>

text \<open>
  A node of the parsed tree is identified by its line number; the root has line number
  \<open>-1\<close>. \<open>well_placed ns p c\<close> says that the child \<open>c\<close> sits under the right parent
  \<open>p\<close> among the nodes \<open>ns\<close>: the parent comes from an earlier line (or is the root)
  and is strictly shallower, a header has a header
  (or the root, which is a header of level 0) as its parent, and every node between the
  parent and the child in the document is at least as deep as the child, so that the
  parent is the nearest preceding node of a strictly smaller level.
\<close>

definition ref_fields :: "MindmapNodeData \<Rightarrow> node_ref \<Rightarrow> node_fields \<Rightarrow> bool" where
  "ref_fields rt r f \<longleftrightarrow> (\<exists>n. node_at rt r = Some n \<and> fields n = f)"

definition well_placed :: "node_fields list \<Rightarrow> node_fields \<Rightarrow> node_fields \<Rightarrow> bool" where
  "well_placed ns p c \<longleftrightarrow>
     lineNumber p < lineNumber c \<and>
     level p < level c \<and> (node_type c = Header \<longrightarrow> node_type p = Header) \<and>
     (\<forall>q \<in> set ns. lineNumber p < lineNumber q \<and> lineNumber q < lineNumber c \<longrightarrow>
        level c \<le> level q)"

definition node_ok :: "node_fields \<Rightarrow> bool" where
  "node_ok q \<longleftrightarrow> 0 \<le> lineNumber q \<and> 1 \<le> level q \<and> (node_type q = ListItem \<longrightarrow> 7 \<le> level q)"

definition shields :: "node_fields list \<Rightarrow> node_fields \<Rightarrow> node_fields \<Rightarrow> bool" where
  "shields ns x y \<longleftrightarrow> (\<forall>q \<in> set ns. lineNumber x < lineNumber q \<longrightarrow> level y \<le> level q)"

definition parse_inv ::
  "MindmapNodeData \<Rightarrow> node_ref list \<Rightarrow> node_fields list \<Rightarrow> int \<Rightarrow> bool" where
  "parse_inv rt st sf i \<longleftrightarrow>
     list_all2 (ref_fields rt) st sf \<and> st \<noteq> [] \<and> hd st = [] \<and>
     level (fields rt) = 0 \<and> lineNumber (fields rt) = - 1 \<and> node_type (fields rt) = Header \<and>
     (\<forall>q \<in> set (all_nodes rt). lineNumber q < i \<and> (q = fields rt \<or> node_ok q)) \<and>
     sorted_wrt (\<lambda>a b. level a < level b) sf \<and>
     successively (shields (all_nodes rt)) sf \<and>
     (\<forall>q \<in> set (all_nodes rt). lineNumber q \<le> lineNumber (last sf)) \<and>
     (\<forall>e \<in> set (edges rt). well_placed (all_nodes rt) (fst e) (snd e))"

lemma find_rev_split:
  "find P (rev xs) = Some r \<Longrightarrow> \<exists>pre rest. xs = pre @ r # rest \<and> P r \<and> (\<forall>x\<in>set rest. \<not> P x)"
proof (induction xs rule: rev_induct)
  case Nil
  then show ?case by simp
next
  case (snoc x xs)
  show ?case
  proof (cases "P x")
    case True
    with snoc.prems have "r = x" by simp
    with True have "xs @ [x] = xs @ r # [] \<and> P r \<and> (\<forall>x\<in>set []. \<not> P x)" by simp
    then show ?thesis by blast
  next
    case False
    with snoc.prems have "find P (rev xs) = Some r" by simp
    from snoc.IH[OF this] obtain pre rest where "xs = pre @ r # rest" "P r" "\<forall>x\<in>set rest. \<not> P x"
      by blast
    with False have "xs @ [x] = pre @ r # (rest @ [x]) \<and> P r \<and> (\<forall>y\<in>set (rest @ [x]). \<not> P y)"
      by simp
    then show ?thesis by blast
  qed
qed

lemma dropWhile_rev_split:
  "\<not> Q r \<Longrightarrow> \<forall>x\<in>set rest. Q x \<Longrightarrow> rev (dropWhile Q (rev (pre @ r # rest))) = pre @ [r]"
proof -
  assume a: "\<not> Q r" "\<forall>x\<in>set rest. Q x"
  then have "dropWhile Q (rev rest @ r # rev pre) = dropWhile Q (r # rev pre)"
    by (intro dropWhile_append2) simp
  with a(1) show ?thesis by simp
qed

lemma fields_in_all_nodes: "fields n \<in> set (all_nodes n)"
  by (cases n) simp

lemma node_at_in_all_nodes: "node_at rt r = Some n \<Longrightarrow> fields n \<in> set (all_nodes rt)"
proof (induction r arbitrary: rt)
  case Nil
  then show ?case by (simp add: fields_in_all_nodes)
next
  case (Cons i r)
  obtain f cs where rt: "rt = Node f cs" by (cases rt)
  with Cons.prems have i: "i < length cs" and n: "node_at (cs ! i) r = Some n"
    by (simp_all split: if_splits)
  from Cons.IH[OF n] have "fields n \<in> set (all_nodes (cs ! i))" .
  moreover have "cs ! i \<in> set cs" using i by simp
  ultimately show ?case using rt by auto
qed

lemma edges_in_all_nodes: "e \<in> set (edges t) \<Longrightarrow> snd e \<in> set (all_nodes t)"
proof (induction t arbitrary: e)
  case (Node f cs)
  from Node.prems consider c where "c \<in> set cs" "e = (f, fields c)"
    | c where "c \<in> set cs" "e \<in> set (edges c)"
    by auto
  then show ?case
  proof cases
    case 1
    have "fields c \<in> set (all_nodes c)" by (rule fields_in_all_nodes)
    with 1 show ?thesis by auto
  next
    case 2
    with Node.IH[of c e] show ?thesis by auto
  qed
qed

lemma ref_fields_push: "ref_fields rt r f \<Longrightarrow> ref_fields (update_at (push_child c) pr rt) r f"
  unfolding ref_fields_def using node_at_push_old by metis

lemma ref_fields_level: "ref_fields rt r f \<Longrightarrow> level_at rt r = level f"
  by (auto simp: ref_fields_def level_at_def)

lemma list_all2_setD2: "list_all2 P xs ys \<Longrightarrow> y \<in> set ys \<Longrightarrow> \<exists>x\<in>set xs. P x y"
  by (induction rule: list_all2_induct) auto

lemma parse_attach:
  assumes inv: "parse_inv rt st sf i"
    and ch: "children node = []" and ln: "lineNumber (fields node) = i" and i0: "0 \<le> i"
    and l1: "1 \<le> level (fields node)"
    and tl: "node_type (fields node) = ListItem \<longrightarrow> 7 \<le> level (fields node)"
    and th: "node_type (fields node) = Header \<longrightarrow> level (fields node) \<le> 6"
  shows "\<exists>pre pr rest parent sf'.
           st = pre @ pr # rest \<and> node_at rt pr = Some parent \<and>
           level_at rt pr < level (fields node) \<and>
           (\<forall>x \<in> set rest. level (fields node) \<le> level_at rt x) \<and>
           findParentNode rt st node = Some pr \<and>
           updateNodeStack (update_at (push_child node) pr rt) st node (pr @ [length (children parent)])
             = pre @ [pr, pr @ [length (children parent)]] \<and>
           parse_inv (update_at (push_child node) pr rt)
             (pre @ [pr, pr @ [length (children parent)]]) sf' (i + 1)"
proof -
  let ?L = "level (fields node)"
  let ?P = "\<lambda>r. level_at rt r < ?L"
  from inv have la: "list_all2 (ref_fields rt) st sf" and ne: "st \<noteq> []" and hd: "hd st = []"
    and r0: "level (fields rt) = 0" and rl: "lineNumber (fields rt) = - 1"
    and rh: "node_type (fields rt) = Header"
    and nodes: "\<forall>q \<in> set (all_nodes rt). lineNumber q < i \<and> (q = fields rt \<or> node_ok q)"
    and sorted: "sorted_wrt (\<lambda>a b. level a < level b) sf"
    and succ: "successively (shields (all_nodes rt)) sf"
    and top: "\<forall>q \<in> set (all_nodes rt). lineNumber q \<le> lineNumber (last sf)"
    and ed: "\<forall>e \<in> set (edges rt). well_placed (all_nodes rt) (fst e) (snd e)"
    unfolding parse_inv_def by blast+
  \<comment> \<open>the root is on the stack and qualifies, so the search succeeds\<close>
  have "[] \<in> set st" using ne hd by (cases st) auto
  moreover have "?P []" using r0 l1 by (simp add: level_at_def)
  ultimately have "find ?P (rev st) \<noteq> None" by (auto simp: find_None_iff)
  then obtain pr where f: "find ?P (rev st) = Some pr" by blast
  from find_rev_split[OF f] obtain pre rest
    where st: "st = pre @ pr # rest" and Ppr: "?P pr" and nrest: "\<forall>x\<in>set rest. \<not> ?P x"
    by blast
  from la st obtain spre pf srest where sf: "sf = spre @ pf # srest"
    and la1: "list_all2 (ref_fields rt) pre spre" and rp: "ref_fields rt pr pf"
    and la2: "list_all2 (ref_fields rt) rest srest"
    by (auto simp: list_all2_append1 list_all2_Cons1)
  from rp obtain parent where par: "node_at rt pr = Some parent" "fields parent = pf"
    by (auto simp: ref_fields_def)
  let ?r = "pr @ [length (children parent)]"
  let ?rt = "update_at (push_child node) pr rt"
  let ?fn = "fields node"
  have fp: "findParentNode rt st node = Some pr"
    by (simp add: findParentNode_find f)
  have lpf: "level pf < ?L" using Ppr ref_fields_level[OF rp] by simp
  have lrest: "?L \<le> level g" if "g \<in> set srest" for g
  proof -
    from list_all2_setD2[OF la2 that] obtain x where "x \<in> set rest" "ref_fields rt x g" by blast
    with nrest ref_fields_level[of rt x g] show ?thesis by auto
  qed
  \<comment> \<open>the stack after the update\<close>
  have lev': "level_at ?rt x = level_at rt x" if "x \<in> set st" for x
  proof -
    from la that obtain g where g: "ref_fields rt x g"
      by (metis in_set_conv_nth list_all2_conv_all_nth)
    from ref_fields_level[OF g] ref_fields_level[OF ref_fields_push[OF g]] show ?thesis by simp
  qed
  have us: "updateNodeStack ?rt st node ?r = pre @ [pr, ?r]"
  proof -
    have a: "\<not> ?L \<le> level_at ?rt pr" using Ppr lev'[of pr] st by simp
    have b: "\<forall>x\<in>set rest. ?L \<le> level_at ?rt x" using nrest lev' st by auto
    from dropWhile_rev_split[of "\<lambda>r. ?L \<le> level_at ?rt r" pr rest pre, OF a b]
    show ?thesis unfolding updateNodeStack_dropWhile st by simp
  qed
  \<comment> \<open>the tree after the update\<close>
  have an: "set (all_nodes ?rt) = insert ?fn (set (all_nodes rt))"
    using all_nodes_push[OF par(1), of node] ch by (cases node) auto
  have en: "set (edges ?rt) = insert (pf, ?fn) (set (edges rt))"
    using edges_push[OF par(1), of node] ch par(2) by (cases node) auto
  have fr: "fields ?rt = fields rt" by (rule fields_update_at_push)
  \<comment> \<open>every earlier node after the parent is at least as deep as the new node\<close>
  have shield: "?L \<le> level q" if q: "q \<in> set (all_nodes rt)" "lineNumber pf < lineNumber q" for q
  proof (cases srest)
    case Nil
    with sf have "last sf = pf" by simp
    with top q show ?thesis by fastforce
  next
    case (Cons y ys)
    with succ sf have "shields (all_nodes rt) pf y"
      by (simp add: successively_append_iff successively_Cons)
    with q have "level y \<le> level q" by (simp add: shields_def)
    moreover have "?L \<le> level y" using lrest[of y] Cons by simp
    ultimately show ?thesis by simp
  qed
  let ?sf = "spre @ [pf, ?fn]"
  have i1: "list_all2 (ref_fields ?rt) (pre @ [pr, ?r]) ?sf"
  proof -
    have "list_all2 (ref_fields ?rt) pre spre"
      using la1 by (rule list_all2_mono) (rule ref_fields_push)
    moreover have "ref_fields ?rt pr pf" using rp by (rule ref_fields_push)
    moreover have "ref_fields ?rt ?r ?fn"
      using node_at_push_new[OF par(1), of node] by (simp add: ref_fields_def)
    ultimately show ?thesis by (simp add: list_all2_appendI)
  qed
  have i2: "hd (pre @ [pr, ?r]) = []" using hd st by (cases pre) auto
  have i3: "\<forall>q \<in> set (all_nodes ?rt). lineNumber q < i + 1 \<and> (q = fields ?rt \<or> node_ok q)"
    using nodes an fr ln i0 l1 tl by (auto simp: node_ok_def)
  have i4: "sorted_wrt (\<lambda>a b. level a < level b) ?sf"
  proof -
    from sorted sf have a: "sorted_wrt (\<lambda>a b. level a < level b) spre"
      and b: "\<forall>x\<in>set spre. level x < level pf"
      by (auto simp: sorted_wrt_append)
    with lpf show ?thesis by (auto simp: sorted_wrt_append)
  qed
  have below: "level y \<le> level pf" if "y \<in> set (spre @ [pf])" for y
    using that sorted sf by (auto simp: sorted_wrt_append)
  have i5: "successively (shields (all_nodes ?rt)) ?sf"
  proof -
    from succ sf have s1: "successively (shields (all_nodes rt)) (spre @ [pf])"
      by (simp add: successively_append_iff successively_Cons)
    have "successively (shields (all_nodes ?rt)) (spre @ [pf])"
    proof (rule successively_mono[OF s1])
      fix x y assume "x \<in> set (spre @ [pf])" "y \<in> set (spre @ [pf])"
        and "shields (all_nodes rt) x y"
      then show "shields (all_nodes ?rt) x y"
        using below[of y] lpf by (auto simp: shields_def an)
    qed
    moreover have "shields (all_nodes ?rt) pf ?fn"
      using shield by (auto simp: shields_def an)
    ultimately have "successively (shields (all_nodes ?rt)) ((spre @ [pf]) @ [?fn])"
      unfolding successively_append_iff[of _ "spre @ [pf]"] by simp
    then show ?thesis by simp
  qed
  have i6: "\<forall>q \<in> set (all_nodes ?rt). lineNumber q \<le> lineNumber (last ?sf)"
    using nodes an ln by auto
  have i7: "\<forall>e \<in> set (edges ?rt). well_placed (all_nodes ?rt) (fst e) (snd e)"
  proof
    fix e assume "e \<in> set (edges ?rt)"
    then consider "e = (pf, ?fn)" | "e \<in> set (edges rt)" using en by auto
    then show "well_placed (all_nodes ?rt) (fst e) (snd e)"
    proof cases
      case 1
      have pin: "pf \<in> set (all_nodes rt)" using node_at_in_all_nodes[OF par(1)] par(2) by simp
      have "node_type pf = Header" if "node_type ?fn = Header"
      proof (cases "pf = fields rt")
        case True
        with rh show ?thesis by simp
      next
        case False
        with nodes pin have "node_ok pf" by auto
        moreover have "level pf < 6" using lpf th that by simp
        ultimately show ?thesis by (cases "node_type pf") (auto simp: node_ok_def)
      qed
      moreover have "lineNumber pf < i" using nodes pin by blast
      ultimately show ?thesis using 1 lpf shield ln
        by (auto simp: well_placed_def an)
    next
      case 2
      with ed have w: "well_placed (all_nodes rt) (fst e) (snd e)" by blast
      from edges_in_all_nodes[OF 2] nodes have "lineNumber (snd e) < i" by blast
      with w ln show ?thesis by (auto simp: well_placed_def an)
    qed
  qed
  have "parse_inv ?rt (pre @ [pr, ?r]) ?sf (i + 1)"
    unfolding parse_inv_def using i1 i2 i3 i4 i5 i6 i7 r0 rl rh fr by simp
  moreover have "\<forall>x \<in> set rest. ?L \<le> level_at rt x" using nrest by auto
  ultimately show ?thesis using st par(1) Ppr fp us by blast
qed

lemma extractWikilinks_loop_plain: "91 \<notin> set s \<Longrightarrow> extractWikilinks_loop s = []"
proof (induction s)
  case Nil
  then show ?case by (subst extractWikilinks_loop.simps) (simp add: wikilinkRegex_def run_length_def)
next
  case (Cons c s)
  then have "rx_match False wikilinkRegex (c # s) = None"
    by (simp add: wikilinkRegex_def run_length_def)
  with Cons show ?case by (subst extractWikilinks_loop.simps) simp
qed

lemmas parse_eval = parseMarkdown_def parse_step_def parseLine_def extractWikilinks_def
  extractWikilinks_loop_plain findParentNode_def updateNodeStack_def updateNodeStack_loop.simps
  level_at_def push_child_def root_node_def indentLength_def

lemma parseLine_facts:
  assumes "parseLine line i cid = Some node"
  shows "children node = []" and "lineNumber (fields node) = i" and "1 \<le> level (fields node)"
    and "node_type (fields node) = ListItem \<longrightarrow> 7 \<le> level (fields node)"
    and "node_type (fields node) = Header \<longrightarrow> level (fields node) \<le> 6"
proof -
  have "children node = [] \<and> lineNumber (fields node) = i \<and> 1 \<le> level (fields node) \<and>
      (node_type (fields node) = ListItem \<longrightarrow> 7 \<le> level (fields node)) \<and>
      (node_type (fields node) = Header \<longrightarrow> level (fields node) \<le> 6)"
  proof (cases "rx_match True headerRegex (trim line)")
    case (Some hm)
    from headerRegex_pieces[OF Some] obtain h w t where "hm = [h, w, t]" "1 \<le> length h" "length h \<le> 6"
      by blast
    with assms Some show ?thesis
      by (auto simp: parseLine_def Let_def extractWikilinks_def)
  next
    case None
    with assms show ?thesis
      by (auto simp: parseLine_def Let_def extractWikilinks_def split: option.splits)
  qed
  then show "children node = []" and "lineNumber (fields node) = i" and "1 \<le> level (fields node)"
    and "node_type (fields node) = ListItem \<longrightarrow> 7 \<le> level (fields node)"
    and "node_type (fields node) = Header \<longrightarrow> level (fields node) \<le> 6"
    by blast+
qed

lemma parse_inv_later: "parse_inv rt st sf i \<Longrightarrow> parse_inv rt st sf (i + 1)"
  unfolding parse_inv_def by fastforce

lemma parse_step_inv:
  assumes "parse_inv rt st sf i" and "0 \<le> i"
  shows "\<exists>rt' st' sf' cid'. parse_step (rt, st, cid) line i = Inr (rt', st', cid') \<and>
           parse_inv rt' st' sf' (i + 1)"
proof (cases "trim line = []")
  case True
  with parse_inv_later[OF assms(1)] show ?thesis by (auto simp: parse_step_def)
next
  case False
  show ?thesis
  proof (cases "parseLine line i cid")
    case None
    with False parse_inv_later[OF assms(1)] show ?thesis by (auto simp: parse_step_def)
  next
    case (Some node)
    note pf = parseLine_facts[OF Some]
    from parse_attach[OF assms(1) pf(1,2) assms(2) pf(3,4,5)] obtain pre pr rest parent sf'
      where "node_at rt pr = Some parent" "findParentNode rt st node = Some pr"
        "updateNodeStack (update_at (push_child node) pr rt) st node (pr @ [length (children parent)])
           = pre @ [pr, pr @ [length (children parent)]]"
        "parse_inv (update_at (push_child node) pr rt)
           (pre @ [pr, pr @ [length (children parent)]]) sf' (i + 1)"
      by blast
    with False Some show ?thesis by (auto simp: parse_step_def Let_def)
  qed
qed

lemma parse_lines_inv:
  "parse_inv rt st sf i \<Longrightarrow> 0 \<le> i \<Longrightarrow>
     \<exists>rt' st' sf' cid' j. parse_lines (rt, st, cid) ls i = Inr (rt', st', cid') \<and>
        parse_inv rt' st' sf' j"
proof (induction ls arbitrary: rt st sf i cid)
  case Nil
  then show ?case by auto
next
  case (Cons l ls)
  from parse_step_inv[OF Cons.prems, of cid l] obtain rt' st' sf' cid'
    where s: "parse_step (rt, st, cid) l i = Inr (rt', st', cid')" "parse_inv rt' st' sf' (i + 1)"
    by blast
  from Cons.IH[OF s(2), of cid'] Cons.prems(2) s(1) show ?case by auto
qed

lemma parse_inv_initial: "parse_inv root_node [[]] [fields root_node] 0"
  by (simp add: parse_inv_def ref_fields_def root_node_def)

subsection \<open>The nodes of the lines\<close>

text \<open>
  The stack holds references into the last branch of the tree only: \<open>on_spine\<close> says that
  a path takes the last child at every step. A node pushed under such a node comes last
  in the document order of the tree. \<open>line_nodes\<close> lists what \<open>parseLine\<close> makes of the
  lines that are not blank, one after the other, with the line numbers and the
  identifiers the loop of \<open>parseMarkdown\<close> passes to it.
\<close>

fun on_spine :: "MindmapNodeData \<Rightarrow> node_ref \<Rightarrow> bool" where
  "on_spine n [] = True"
| "on_spine n (i # p) = (Suc i = length (children n) \<and> on_spine (children n ! i) p)"

definition spine_inv :: "MindmapNodeData \<Rightarrow> node_ref list \<Rightarrow> bool" where
  "spine_inv rt st \<longleftrightarrow>
     (\<forall>r \<in> set st. on_spine rt r) \<and> sorted_wrt (\<lambda>a b. length a < length b) st"

fun line_nodes :: "jsstring list \<Rightarrow> int \<Rightarrow> nat \<Rightarrow> node_fields list" where
  "line_nodes [] i cid = []"
| "line_nodes (l # ls) i cid =
     (if trim l = [] then line_nodes ls (i + 1) cid
      else (case parseLine l i cid of
              None \<Rightarrow> line_nodes ls (i + 1) (cid + 1)
            | Some n \<Rightarrow> fields n # line_nodes ls (i + 1) (cid + 1)))"

lemma concat_map_update_last:
  "Suc i = length cs \<Longrightarrow> concat (map g (cs[i := x])) = concat (map g (butlast cs)) @ g x"
proof -
  assume a: "Suc i = length cs"
  then have "cs \<noteq> []" by auto
  then have "cs = butlast cs @ [last cs]" by simp
  moreover have "i = length (butlast cs)" using a by simp
  ultimately have "cs[i := x] = butlast cs @ [x]"
    by (metis list_update_length)
  then show ?thesis by simp
qed

lemma concat_map_last:
  "Suc i = length cs \<Longrightarrow> concat (map g cs) = concat (map g (butlast cs)) @ g (cs ! i)"
  using concat_map_update_last[of i cs g "cs ! i"] by simp

lemma all_nodes_push_spine:
  "on_spine rt pr \<Longrightarrow>
     all_nodes (update_at (push_child c) pr rt) = all_nodes rt @ all_nodes c"
proof (induction pr arbitrary: rt)
  case Nil
  then show ?case by (cases rt) (simp add: push_child_def)
next
  case (Cons i p)
  obtain f cs where rt: "rt = Node f cs" by (cases rt)
  from Cons.prems rt have i: "Suc i = length cs" and s: "on_spine (cs ! i) p" by simp_all
  from i have "all_nodes (update_at (push_child c) (i # p) rt) =
      f # concat (map all_nodes (cs[i := update_at (push_child c) p (cs ! i)]))"
    using rt by simp
  also have "\<dots> = f # concat (map all_nodes (butlast cs)) @
      all_nodes (update_at (push_child c) p (cs ! i))"
    using i by (simp only: concat_map_update_last)
  also have "\<dots> = f # concat (map all_nodes (butlast cs)) @ all_nodes (cs ! i) @ all_nodes c"
    using Cons.IH[OF s] by simp
  also have "\<dots> = (f # concat (map all_nodes cs)) @ all_nodes c"
    using concat_map_last[OF i, of all_nodes] by simp
  finally show ?case using rt by simp
qed

lemma on_spine_push_old:
  "on_spine rt r \<Longrightarrow> on_spine rt pr \<Longrightarrow> length r \<le> length pr \<Longrightarrow>
     on_spine (update_at (push_child c) pr rt) r"
proof (induction r arbitrary: rt pr)
  case Nil
  then show ?case by simp
next
  case (Cons i r)
  from Cons.prems(3) obtain j p where pr: "pr = j # p" by (cases pr) auto
  from Cons.prems(1) have i: "Suc i = length (children rt)" and s: "on_spine (children rt ! i) r"
    by simp_all
  from Cons.prems(2) pr have j: "Suc j = length (children rt)" and t: "on_spine (children rt ! j) p"
    by simp_all
  from i j have ij: "i = j" by simp
  from Cons.IH[OF s _ _, of p] t ij Cons.prems(3) pr
  have "on_spine (update_at (push_child c) p (children rt ! i)) r" by simp
  with i ij pr show ?case by simp
qed

lemma on_spine_push_new:
  "on_spine rt pr \<Longrightarrow> node_at rt pr = Some parent \<Longrightarrow>
     on_spine (update_at (push_child c) pr rt) (pr @ [length (children parent)])"
proof (induction pr arbitrary: rt)
  case Nil
  then show ?case by (simp add: push_child_def)
next
  case (Cons i p)
  from Cons.prems(1) have i: "Suc i = length (children rt)" and s: "on_spine (children rt ! i) p"
    by simp_all
  from Cons.prems(2) i have n: "node_at (children rt ! i) p = Some parent" by simp
  from Cons.IH[OF s n] i show ?case by simp
qed

lemma spine_inv_push:
  assumes "spine_inv rt (pre @ pr # rest)" and "node_at rt pr = Some parent"
  shows "spine_inv (update_at (push_child c) pr rt) (pre @ [pr, pr @ [length (children parent)]])"
proof -
  let ?rt = "update_at (push_child c) pr rt"
  from assms(1) have sp: "\<forall>r \<in> set pre. on_spine rt r" "on_spine rt pr"
    and so: "sorted_wrt (\<lambda>a b. length a < length b) pre" "\<forall>r \<in> set pre. length r < length pr"
    by (auto simp: spine_inv_def sorted_wrt_append)
  have "on_spine ?rt r" if "r \<in> set pre" for r
    using that sp so(2) by (intro on_spine_push_old) auto
  moreover have "on_spine ?rt pr" using sp(2) by (intro on_spine_push_old) auto
  moreover have "on_spine ?rt (pr @ [length (children parent)])"
    using sp(2) assms(2) by (rule on_spine_push_new)
  moreover have "sorted_wrt (\<lambda>a b. length a < length b) (pre @ [pr, pr @ [length (children parent)]])"
    using so by (auto simp: sorted_wrt_append)
  ultimately show ?thesis by (auto simp: spine_inv_def)
qed

lemma parse_step_nodes:
  assumes "parse_inv rt st sf i" and "spine_inv rt st" and "0 \<le> i"
  shows "\<exists>rt' st' sf' cid'. parse_step (rt, st, cid) line i = Inr (rt', st', cid') \<and>
           parse_inv rt' st' sf' (i + 1) \<and> spine_inv rt' st' \<and>
           all_nodes rt' = all_nodes rt @ line_nodes [line] i cid \<and>
           line_nodes ls (i + 1) cid' = drop (length (line_nodes [line] i cid))
                                          (line_nodes (line # ls) i cid)"
proof (cases "trim line = []")
  case True
  with parse_inv_later[OF assms(1)] assms(2) show ?thesis by (auto simp: parse_step_def)
next
  case False
  show ?thesis
  proof (cases "parseLine line i cid")
    case None
    with False parse_inv_later[OF assms(1)] assms(2) show ?thesis by (auto simp: parse_step_def)
  next
    case (Some node)
    note pf = parseLine_facts[OF Some]
    from parse_attach[OF assms(1) pf(1,2) assms(3) pf(3,4,5)] obtain pre pr rest parent sf'
      where a: "st = pre @ pr # rest" "node_at rt pr = Some parent"
        "findParentNode rt st node = Some pr"
        "updateNodeStack (update_at (push_child node) pr rt) st node (pr @ [length (children parent)])
           = pre @ [pr, pr @ [length (children parent)]]"
        "parse_inv (update_at (push_child node) pr rt)
           (pre @ [pr, pr @ [length (children parent)]]) sf' (i + 1)"
      by blast
    from assms(2) a(1) have sp: "on_spine rt pr" by (simp add: spine_inv_def)
    have s: "spine_inv (update_at (push_child node) pr rt) (pre @ [pr, pr @ [length (children parent)]])"
      using assms(2) a(1,2) spine_inv_push by simp
    have n: "all_nodes (update_at (push_child node) pr rt) = all_nodes rt @ [fields node]"
      using all_nodes_push_spine[OF sp, of node] pf(1) by (cases node) simp
    from False Some a s n show ?thesis by (auto simp: parse_step_def Let_def)
  qed
qed

lemma parse_lines_nodes:
  "parse_inv rt st sf i \<Longrightarrow> spine_inv rt st \<Longrightarrow> 0 \<le> i \<Longrightarrow>
     \<exists>rt' st' sf' cid'. parse_lines (rt, st, cid) ls i = Inr (rt', st', cid') \<and>
        parse_inv rt' st' sf' (i + int (length ls)) \<and> spine_inv rt' st' \<and>
        all_nodes rt' = all_nodes rt @ line_nodes ls i cid"
proof (induction ls arbitrary: rt st sf i cid)
  case Nil
  then show ?case by auto
next
  case (Cons l ls)
  from parse_step_nodes[OF Cons.prems, of cid l ls] obtain rt' st' sf' cid'
    where s: "parse_step (rt, st, cid) l i = Inr (rt', st', cid')" "parse_inv rt' st' sf' (i + 1)"
      "spine_inv rt' st'" "all_nodes rt' = all_nodes rt @ line_nodes [l] i cid"
      "line_nodes ls (i + 1) cid' = drop (length (line_nodes [l] i cid)) (line_nodes (l # ls) i cid)"
    by blast
  have split: "line_nodes (l # ls) i cid = line_nodes [l] i cid @ line_nodes ls (i + 1) cid'"
    using s(5) by (auto split: option.splits if_splits)
  from Cons.IH[OF s(2,3), of cid'] Cons.prems(3) obtain rt2 st2 sf2 cid2
    where t: "parse_lines (rt', st', cid') ls (i + 1) = Inr (rt2, st2, cid2)"
      "parse_inv rt2 st2 sf2 (i + 1 + int (length ls))" "spine_inv rt2 st2"
      "all_nodes rt2 = all_nodes rt' @ line_nodes ls (i + 1) cid'"
    by auto
  have "parse_lines (rt, st, cid) (l # ls) i = Inr (rt2, st2, cid2)" using s(1) t(1) by simp
  moreover have "i + 1 + int (length ls) = i + int (length (l # ls))" by simp
  then have "parse_inv rt2 st2 sf2 (i + int (length (l # ls)))"
    using t(2) by (simp only:)
  moreover have "all_nodes rt2 = all_nodes rt @ line_nodes (l # ls) i cid"
    using t(4) s(4) split by simp
  ultimately show ?case using t(3) by blast
qed

lemma spine_inv_initial: "spine_inv root_node [[]]"
  by (simp add: spine_inv_def)

lemma nodes_have_edges:
  "c \<in> set (tl (all_nodes t)) \<Longrightarrow> \<exists>p \<in> set (all_nodes t). (p, c) \<in> set (edges t)"
proof (induction t)
  case (Node f cs)
  from Node.prems obtain d where d: "d \<in> set cs" "c \<in> set (all_nodes d)" by auto
  obtain g ds where dd: "d = Node g ds" by (cases d)
  show ?case
  proof (cases "c = g")
    case True
    with d dd have "(f, c) \<in> set (edges (Node f cs))" by force
    then show ?thesis by auto
  next
    case False
    with d dd have "c \<in> set (tl (all_nodes d))" by auto
    from Node.IH[OF d(1) this] obtain p where "p \<in> set (all_nodes d)" "(p, c) \<in> set (edges d)"
      by blast
    with d(1) show ?thesis by auto
  qed
qed

lemma parseMarkdown_nodes:
  "\<exists>t. parseMarkdown content = Inr t \<and>
       all_nodes t = fields root_node # line_nodes (split_lines content) 0 1 \<and>
       (\<forall>c \<in> set (line_nodes (split_lines content) 0 1).
          \<exists>p \<in> set (all_nodes t). (p, c) \<in> set (edges t) \<and> well_placed (all_nodes t) p c)"
proof -
  from parse_lines_nodes[OF parse_inv_initial spine_inv_initial, of 1 "split_lines content"]
  obtain rt st sf cid
    where p: "parse_lines (root_node, [[]], 1) (split_lines content) 0 = Inr (rt, st, cid)"
      and inv: "parse_inv rt st sf (0 + int (length (split_lines content)))"
      and n: "all_nodes rt = all_nodes root_node @ line_nodes (split_lines content) 0 1"
    by auto
  from n have n': "all_nodes rt = fields root_node # line_nodes (split_lines content) 0 1"
    by (simp add: root_node_def)
  from inv have w: "\<forall>e \<in> set (edges rt). well_placed (all_nodes rt) (fst e) (snd e)"
    by (simp add: parse_inv_def)
  have "\<exists>p \<in> set (all_nodes rt). (p, c) \<in> set (edges rt) \<and> well_placed (all_nodes rt) p c"
    if "c \<in> set (line_nodes (split_lines content) 0 1)" for c
  proof -
    from that n' have "c \<in> set (tl (all_nodes rt))" by simp
    from nodes_have_edges[OF this] obtain q where q: "q \<in> set (all_nodes rt)" "(q, c) \<in> set (edges rt)"
      by blast
    with w have "well_placed (all_nodes rt) q c" by force
    with q show ?thesis by blast
  qed
  with p n' show ?thesis by (auto simp: parseMarkdown_def)
qed

lemma line_nodes_sorted:
  "(\<forall>q \<in> set (line_nodes ls i cid). i \<le> lineNumber q) \<and>
   sorted_wrt (<) (map lineNumber (line_nodes ls i cid))"
proof (induction ls arbitrary: i cid)
  case Nil
  then show ?case by simp
next
  case (Cons l ls)
  have a: "\<forall>q \<in> set (line_nodes ls (i + 1) c). i < lineNumber q" for c
    using Cons.IH[of "i + 1" c] by auto
  show ?case
  proof (cases "trim l = []")
    case True
    with Cons.IH[of "i + 1" cid] a[of cid] show ?thesis by auto
  next
    case False
    show ?thesis
    proof (cases "parseLine l i cid")
      case None
      with False Cons.IH[of "i + 1" "cid + 1"] a[of "cid + 1"] show ?thesis by auto
    next
      case (Some n)
      from parseLine_facts(2)[OF Some] have "lineNumber (fields n) = i" .
      with False Some Cons.IH[of "i + 1" "cid + 1"] a[of "cid + 1"] show ?thesis by auto
    qed
  qed
qed

lemma parse_lines_reached:
  assumes "parse_lines (root_node, [[]], 1) before 0 = Inr (rt, st, cid)"
  shows "\<exists>sf. parse_inv rt st sf (int (length before))"
proof -
  from parse_lines_nodes[OF parse_inv_initial spine_inv_initial, of 1 before] assms
  show ?thesis by auto
qed


subsection \<open>A sample document\<close>

definition sample_A :: node_fields where
  "sample_A = \<lparr> node_id = js ''node-1'', node_text = js ''A'', level = 1, node_type = Header,
                 node_x = None, node_y = None, lineNumber = 0, originalText = js ''# A'',
                 hasWikilink = False, wikilinks = [], color = Some Red, collapsed = None \<rparr>"

definition sample_b :: node_fields where
  "sample_b = \<lparr> node_id = js ''node-2'', node_text = js ''b'', level = 7, node_type = ListItem,
                 node_x = None, node_y = None, lineNumber = 2, originalText = js ''- b'',
                 hasWikilink = False, wikilinks = [], color = None, collapsed = None \<rparr>"

definition sample_C :: node_fields where
  "sample_C = \<lparr> node_id = js ''node-3'', node_text = js ''C'', level = 2, node_type = Header,
                 node_x = None, node_y = None, lineNumber = 3, originalText = js ''## C'',
                 hasWikilink = False, wikilinks = [], color = Some Default, collapsed = None \<rparr>"

definition sample_before :: MindmapNodeData where
  "sample_before = Node (fields root_node) [Node sample_A [Node sample_b []]]"

definition sample_after :: MindmapNodeData where
  "sample_after = Node (fields root_node) [Node sample_A [Node sample_b [], Node sample_C []]]"

definition sample_document :: jsstring where
  "sample_document = js ''# A'' @ 10 # 10 # js ''- b'' @ 10 # js ''## C''"

lemma sample_lines: "split_lines sample_document = [js ''# A'', [], js ''- b'', js ''## C'']"
  by (simp add: sample_document_def js_def)

lemmas sample_eval = sample_A_def sample_b_def sample_C_def sample_before_def sample_after_def

lemma sample_reached:
  "parse_lines (root_node, [[]], 1) [js ''# A'', [], js ''- b''] 0 =
     Inr (sample_before, [[], [0], [0, 0]], 3)"
  by (simp add: parse_eval string_eval decimal.simps sample_eval)

lemma sample_line: "trim (js ''## C'') \<noteq> []"
  "parseLine (js ''## C'') 3 3 = Some (Node sample_C [])"
  by (simp_all add: parse_eval string_eval decimal.simps sample_eval)

lemma sample_step:
  "parse_step (sample_before, [[], [0], [0, 0]], 3) (js ''## C'') 3 =
     Inr (sample_after, [[], [0], [0, 1]], 4)"
  by (simp add: parse_eval string_eval decimal.simps sample_eval)

lemma sample_parse: "parseMarkdown sample_document = Inr sample_after"
  by (simp add: sample_lines parse_eval string_eval decimal.simps sample_eval)

lemma sample_line_nodes:
  "line_nodes (split_lines sample_document) 0 1 = [sample_A, sample_b, sample_C]"
  by (simp add: sample_lines parse_eval string_eval decimal.simps sample_eval)


text \<open>
  Claim C2. \<open>findParentNode\<close> returns the entry nearest the top of the stack whose level
  is strictly smaller than the new node's, and the bottom entry (the root) when none
  qualifies. \<open>updateNodeStack\<close> pops every top entry whose level is at least the new
  node's and pushes the new node. In every state the loop reaches, on a line that is not
  blank and yields a node: the stack splits into the entries kept, the parent, whose
  level is strictly smaller than the node's, and the entries above it, whose levels are
  at least the node's; the node is pushed onto the children of the parent, and the stack
  becomes the entries kept, the parent and the new node.
  Consequently \<open>parseMarkdown\<close> always returns a tree; its nodes, in document order, are
  the root followed by the nodes of the lines, in the order of the lines; and every node
  of a line has a parent in the tree under which it is \<open>well_placed\<close>: the parent comes
  from an earlier line or is the root, a header hangs under a strictly shallower header
  or the root, and a node hangs under the nearest preceding node of a strictly smaller
  level.
\<close>

theorem parent_assignment:
  "findParentNode rt st n =
     (case find (\<lambda>r. level_at rt r < level (fields n)) (rev st) of
        Some r \<Rightarrow> Some r
      | None \<Rightarrow> (case st of [] \<Rightarrow> None | r # _ \<Rightarrow> Some r))
   \<and> updateNodeStack rt st n r =
       rev (dropWhile (\<lambda>r. level (fields n) \<le> level_at rt r) (rev st)) @ [r]
   \<and> (parse_lines (root_node, [[]], 1) before 0 = Inr (rt, st, cid) \<longrightarrow>
        trim line \<noteq> [] \<longrightarrow> parseLine line (int (length before)) cid = Some n \<longrightarrow>
        (\<exists>pre pr rest parent.
           st = pre @ pr # rest \<and> level_at rt pr < level (fields n) \<and>
           (\<forall>x \<in> set rest. level (fields n) \<le> level_at rt x) \<and>
           node_at rt pr = Some parent \<and>
           parse_step (rt, st, cid) line (int (length before)) =
             Inr (update_at (push_child n) pr rt,
                  pre @ [pr, pr @ [length (children parent)]], cid + 1)))
   \<and> (\<exists>t. parseMarkdown content = Inr t \<and>
         all_nodes t = fields root_node # line_nodes (split_lines content) 0 1 \<and>
         sorted_wrt (<) (map lineNumber (all_nodes t)) \<and>
         (\<forall>c \<in> set (line_nodes (split_lines content) 0 1).
            \<exists>p \<in> set (all_nodes t). (p, c) \<in> set (edges t) \<and> well_placed (all_nodes t) p c))"
proof -
  have 3: "\<exists>pre pr rest parent.
           st = pre @ pr # rest \<and> level_at rt pr < level (fields n) \<and>
           (\<forall>x \<in> set rest. level (fields n) \<le> level_at rt x) \<and>
           node_at rt pr = Some parent \<and>
           parse_step (rt, st, cid) line (int (length before)) =
             Inr (update_at (push_child n) pr rt,
                  pre @ [pr, pr @ [length (children parent)]], cid + 1)"
    if a: "parse_lines (root_node, [[]], 1) before 0 = Inr (rt, st, cid)"
      and b: "trim line \<noteq> []" and c: "parseLine line (int (length before)) cid = Some n"
  proof -
    from parse_lines_reached[OF a] obtain sf where inv: "parse_inv rt st sf (int (length before))"
      by blast
    note pf = parseLine_facts[OF c]
    from parse_attach[OF inv pf(1,2) _ pf(3,4,5)] obtain pre pr rest parent
      where d: "st = pre @ pr # rest" "node_at rt pr = Some parent"
        "level_at rt pr < level (fields n)" "\<forall>x \<in> set rest. level (fields n) \<le> level_at rt x"
        "findParentNode rt st n = Some pr"
        "updateNodeStack (update_at (push_child n) pr rt) st n (pr @ [length (children parent)])
           = pre @ [pr, pr @ [length (children parent)]]"
      by auto
    have "parse_step (rt, st, cid) line (int (length before)) =
             Inr (update_at (push_child n) pr rt,
                  pre @ [pr, pr @ [length (children parent)]], cid + 1)"
      using b c d(2,5,6) by (simp add: parse_step_def Let_def)
    with d(1-4) show ?thesis by blast
  qed
  from parseMarkdown_nodes[of content] obtain t where t: "parseMarkdown content = Inr t"
    "all_nodes t = fields root_node # line_nodes (split_lines content) 0 1"
    "\<forall>c \<in> set (line_nodes (split_lines content) 0 1).
       \<exists>p \<in> set (all_nodes t). (p, c) \<in> set (edges t) \<and> well_placed (all_nodes t) p c"
    by blast
  have "sorted_wrt (<) (map lineNumber (all_nodes t))"
    using line_nodes_sorted[of "split_lines content" 0 1] t(2) by (auto simp: root_node_def)
  with t have 4: "\<exists>t. parseMarkdown content = Inr t \<and>
         all_nodes t = fields root_node # line_nodes (split_lines content) 0 1 \<and>
         sorted_wrt (<) (map lineNumber (all_nodes t)) \<and>
         (\<forall>c \<in> set (line_nodes (split_lines content) 0 1).
            \<exists>p \<in> set (all_nodes t). (p, c) \<in> set (edges t) \<and> well_placed (all_nodes t) p c)"
    by blast
  from 3 4 show ?thesis
    using findParentNode_find[of rt st n] updateNodeStack_dropWhile[of rt st n r] by blast
qed

theorem parent_assignment_witness:
  "parse_lines (root_node, [[]], 1) [js ''# A'', [], js ''- b''] 0 =
     Inr (sample_before, [[], [0], [0, 0]], 3)
   \<and> trim (js ''## C'') \<noteq> [] \<and> parseLine (js ''## C'') 3 3 = Some (Node sample_C [])
   \<and> findParentNode sample_before [[], [0], [0, 0]] (Node sample_C []) = Some [0]
   \<and> updateNodeStack sample_after [[], [0], [0, 0]] (Node sample_C []) [0, 1] = [[], [0], [0, 1]]
   \<and> (\<exists>pre pr rest parent.
         [[], [0], [0, 0]] = pre @ pr # rest \<and> level_at sample_before pr < 2 \<and>
         list_all (\<lambda>x. 2 \<le> level_at sample_before x) rest \<and>
         node_at sample_before pr = Some parent \<and>
         parse_step (sample_before, [[], [0], [0, 0]], 3) (js ''## C'') 3 =
           Inr (update_at (push_child (Node sample_C [])) pr sample_before,
                pre @ [pr, pr @ [length (children parent)]], 4))
   \<and> parse_step (sample_before, [[], [0], [0, 0]], 3) (js ''## C'') 3 =
        Inr (sample_after, [[], [0], [0, 1]], 4)
   \<and> parseMarkdown sample_document = Inr sample_after
   \<and> line_nodes (split_lines sample_document) 0 1 = [sample_A, sample_b, sample_C]
   \<and> all_nodes sample_after = [fields root_node, sample_A, sample_b, sample_C]
   \<and> edges sample_after = [(fields root_node, sample_A), (sample_A, sample_b), (sample_A, sample_C)]
   \<and> list_all (\<lambda>e. well_placed (all_nodes sample_after) (fst e) (snd e)) (edges sample_after)"
proof -
  note pa = parent_assignment[of sample_before "[[], [0], [0, 0]]" "Node sample_C []" "[0, 1]"
      "[js ''# A'', [], js ''- b'']" 3 "js ''## C''" sample_document]
  note pb = parent_assignment[of sample_after "[[], [0], [0, 0]]" "Node sample_C []" "[0, 1]"
      "[js ''# A'', [], js ''- b'']" 3 "js ''## C''" sample_document]
  from pa have 1: "findParentNode sample_before [[], [0], [0, 0]] (Node sample_C []) = Some [0]"
    by (simp add: level_at_def sample_eval root_node_def)
  from pb have 2: "updateNodeStack sample_after [[], [0], [0, 0]] (Node sample_C []) [0, 1]
      = [[], [0], [0, 1]]"
    by (simp add: level_at_def sample_eval root_node_def)
  from pa sample_reached sample_line
  have 3: "\<exists>pre pr rest parent.
         [[], [0], [0, 0]] = pre @ pr # rest \<and> level_at sample_before pr < 2 \<and>
         list_all (\<lambda>x. 2 \<le> level_at sample_before x) rest \<and>
         node_at sample_before pr = Some parent \<and>
         parse_step (sample_before, [[], [0], [0, 0]], 3) (js ''## C'') 3 =
           Inr (update_at (push_child (Node sample_C [])) pr sample_before,
                pre @ [pr, pr @ [length (children parent)]], 4)"
    by (simp add: sample_C_def list_all_iff)
  have an: "all_nodes sample_after = [fields root_node, sample_A, sample_b, sample_C]"
    and ed: "edges sample_after =
      [(fields root_node, sample_A), (sample_A, sample_b), (sample_A, sample_C)]"
    by (simp_all add: sample_after_def)
  from pa obtain t where t: "parseMarkdown sample_document = Inr t"
    and tw: "\<forall>c \<in> set (line_nodes (split_lines sample_document) 0 1).
       \<exists>p \<in> set (all_nodes t). (p, c) \<in> set (edges t) \<and> well_placed (all_nodes t) p c"
    by blast
  from t sample_parse have "t = sample_after" by simp
  with tw have w: "\<forall>c \<in> set [sample_A, sample_b, sample_C].
       \<exists>p \<in> set (all_nodes sample_after). (p, c) \<in> set (edges sample_after) \<and>
          well_placed (all_nodes sample_after) p c"
    by (simp only: sample_line_nodes)
  have 4: "list_all (\<lambda>e. well_placed (all_nodes sample_after) (fst e) (snd e)) (edges sample_after)"
  proof -
    have d: "sample_A \<noteq> sample_b" "sample_A \<noteq> sample_C" "sample_b \<noteq> sample_C"
      "fields root_node \<noteq> sample_A" "fields root_node \<noteq> sample_b" "fields root_node \<noteq> sample_C"
      by (simp_all add: sample_eval root_node_def)
    from w d show ?thesis unfolding an ed by auto
  qed
  from 1 2 3 4 sample_reached sample_line sample_step sample_parse sample_line_nodes an ed
  show ?thesis by (intro conjI)
qed

section \<open>Serializing and parsing again\<close>

subsection \<open>The trees that survive the round trip\<close>

text \<open>
  \<open>shape_of\<close> keeps of a tree what the round trip is about: the kind and the text of
  every node, and the sequence of its children. The serializer encodes the hierarchy in
  the levels alone, so a tree comes back only when its levels agree with its shape:
  \<^item> \<open>kind_ok\<close>: a header has a level from 1 to 6, a list item a level of 7 or more;
  \<^item> a child is strictly deeper than its parent, and the levels of the children of a node
    never increase from one child to the next (\<open>levels_fall\<close>);
  \<^item> \<open>text_ok\<close>: a text is not empty, holds no line terminator, starts with a code
    unit that is not white space, and a header's text ends with one;
  \<^item> \<open>plain\<close>: the node is not taken for the root, and has no recorded wikilinks,
    for which the serializer raises.
\<close>

datatype shape = Shape node_type jsstring "shape list"

fun shape_of :: "MindmapNodeData \<Rightarrow> shape" where
  "shape_of (Node f cs) = Shape (node_type f) (node_text f) (map shape_of cs)"

definition text_ok :: "node_fields \<Rightarrow> bool" where
  "text_ok f \<longleftrightarrow>
     node_text f \<noteq> [] \<and> \<not> is_space (hd (node_text f)) \<and> list_all is_dot (node_text f) \<and>
     (node_type f = Header \<longrightarrow> \<not> is_space (last (node_text f)))"

definition kind_ok :: "node_fields \<Rightarrow> bool" where
  "kind_ok f \<longleftrightarrow>
     (case node_type f of Header \<Rightarrow> 1 \<le> level f \<and> level f \<le> 6 | ListItem \<Rightarrow> 7 \<le> level f)"

definition plain :: "node_fields \<Rightarrow> bool" where
  "plain f \<longleftrightarrow> node_id f \<noteq> js ''root'' \<and> \<not> (hasWikilink f \<and> wikilinks f \<noteq> [])"

definition levels_fall :: "MindmapNodeData list \<Rightarrow> bool" where
  "levels_fall cs \<longleftrightarrow> sorted_wrt (\<lambda>a b. level (fields b) \<le> level (fields a)) cs"

fun roundtrippable :: "MindmapNodeData \<Rightarrow> bool" where
  "roundtrippable (Node f cs) \<longleftrightarrow>
     text_ok f \<and> kind_ok f \<and> plain f \<and>
     (\<forall>c \<in> set cs. level f < level (fields c) \<and> roundtrippable c) \<and> levels_fall cs"

definition line_of :: "node_fields \<Rightarrow> jsstring" where
  "line_of f =
     (case node_type f of
        Header \<Rightarrow> replicate (nat (level f)) 35 @ 32 # node_text f
      | ListItem \<Rightarrow> replicate (nat (level f - 7)) 9 @ 45 # 32 # node_text f)"

fun tree_lines :: "MindmapNodeData \<Rightarrow> jsstring list" where
  "tree_lines (Node f cs) = line_of f # concat (map tree_lines cs)"

definition fits :: "jsstring \<Rightarrow> bool" where
  "fits s \<longleftrightarrow> length s \<le> max_string_length"

lemma node_line_ok:
  assumes "kind_ok f" and "plain f" and "fits (line_of f)"
  shows "node_line f = Inr (line_of f)"
proof (cases "node_type f")
  case Header
  with assms(1) have "0 \<le> level f" "level f \<le> 6" by (simp_all add: kind_ok_def)
  then have "repeat 35 (level f) = Inr (replicate (nat (level f)) 35)"
    by (simp add: repeat_def max_string_length_def)
  with Header assms(2,3) show ?thesis
    by (simp add: node_line_def line_of_def line_text_def plain_def js_string_def fits_def)
next
  case ListItem
  with assms(1) have l: "7 \<le> level f" by (simp add: kind_ok_def)
  from ListItem assms(3) have "nat (level f - 7) \<le> max_string_length"
    by (simp add: line_of_def fits_def)
  with l have "repeat 9 (max 0 (level f - 7)) = Inr (replicate (nat (level f - 7)) 9)"
    by (simp add: repeat_def)
  with ListItem assms(2,3) show ?thesis
    by (simp add: node_line_def line_of_def line_text_def plain_def js_string_def fits_def)
qed

lemma traverse_ok:
  "roundtrippable t \<Longrightarrow> \<forall>l \<in> set (tree_lines t). fits l \<Longrightarrow> traverse t = Inr (tree_lines t)"
  "\<forall>c \<in> set cs. roundtrippable c \<Longrightarrow> \<forall>l \<in> set (concat (map tree_lines cs)). fits l \<Longrightarrow>
     traverse_children cs = Inr (concat (map tree_lines cs))"
proof (induction t and cs rule: traverse_traverse_children.induct)
  case (1 f cs)
  then show ?case by (auto simp: node_line_ok plain_def)
next
  case 2
  then show ?case by simp
next
  case (3 c cs)
  then show ?case by simp
qed

lemma line_le_join: "l \<in> set ls \<Longrightarrow> length l \<le> length (join_lines ls)"
  by (induction ls rule: join_lines.induct) auto

lemma trim_id: "s \<noteq> [] \<Longrightarrow> \<not> is_space (hd s) \<Longrightarrow> \<not> is_space (last s) \<Longrightarrow> trim s = s"
proof -
  assume a: "s \<noteq> []" "\<not> is_space (hd s)" "\<not> is_space (last s)"
  then have "dropWhile is_space s = s" by (cases s) auto
  moreover have "dropWhile is_space (rev s) = rev s"
    using a by (cases "rev s") (auto simp: last_rev hd_rev)
  ultimately show ?thesis by (simp add: trim_def)
qed

lemma space_run_single:
  assumes "w @ t = c # tx" "w \<noteq> []" "list_all is_space w" "tx \<noteq> []" "\<not> is_space (hd tx)"
  shows "w = [c] \<and> t = tx"
proof -
  from assms(1,2) obtain w' where w: "w = c # w'" "w' @ t = tx" by (cases w) auto
  have "w' = []"
  proof (rule ccontr)
    assume "w' \<noteq> []"
    then obtain a ws where "w' = a # ws" by (cases w') auto
    with w assms(3,4,5) show False by auto
  qed
  with w show ?thesis by simp
qed

lemma indentLength_tabs: "indentLength (replicate m 9) = 4 * m"
  by (induction m) (simp_all add: indentLength_def)

lemma is_space_tab: "is_space 9" and is_space_blank: "is_space 32"
  by (simp_all add: is_space_def)

lemma parseLine_line_of:
  assumes t: "text_ok f" and k: "kind_ok f"
  shows "trim (line_of f) \<noteq> [] \<and>
         (\<exists>g. parseLine (line_of f) i cid = Some (Node g []) \<and> node_type g = node_type f \<and>
              node_text g = node_text f \<and> level g = level f)"
proof (cases "node_type f")
  case Header
  let ?k = "nat (level f)" and ?tx = "node_text f"
  from k Header have k1: "1 \<le> ?k" "?k \<le> 6" and lk: "int ?k = level f"
    by (auto simp: kind_ok_def)
  from t Header have tx: "?tx \<noteq> []" "\<not> is_space (hd ?tx)" "list_all is_dot ?tx"
    "\<not> is_space (last ?tx)"
    by (auto simp: text_ok_def)
  have line: "line_of f = replicate ?k 35 @ [32] @ ?tx" using Header by (simp add: line_of_def)
  have "hd (line_of f) = 35" using k1 line by (cases ?k) auto
  moreover have "last (line_of f) = last ?tx" using line tx(1) by simp
  ultimately have tr: "trim (line_of f) = line_of f"
    using tx(4) line by (intro trim_id) (auto simp: is_space_def)
  from headerRegex_on_shape[OF k1 _ _ tx(1,3), of "[32]"] obtain w u
    where m: "rx_match True headerRegex (line_of f) = Some [replicate ?k 35, w, u]"
      and wu: "w @ u = [32] @ ?tx" "w \<noteq> []" "list_all is_space w"
    using line by (auto simp: is_space_blank)
  from space_run_single[OF _ wu(2,3) tx(1,2), of u 32] wu(1) have "w = [32]" "u = ?tx" by simp_all
  with m tr lk have "\<exists>g. parseLine (line_of f) i cid = Some (Node g []) \<and> node_type g = node_type f \<and>
              node_text g = node_text f \<and> level g = level f"
    using Header by (simp add: parseLine_def Let_def extractWikilinks_def)
  moreover have "trim (line_of f) \<noteq> []" using tr line by simp
  ultimately show ?thesis by blast
next
  case ListItem
  let ?m = "nat (level f - 7)" and ?tx = "node_text f"
  from k ListItem have lm: "int ?m + 1 + 6 = level f"
    by (auto simp: kind_ok_def)
  from t have tx: "?tx \<noteq> []" "\<not> is_space (hd ?tx)" "list_all is_dot ?tx"
    by (auto simp: text_ok_def)
  have line: "line_of f = replicate ?m 9 @ 45 # [32] @ ?tx" using ListItem by (simp add: line_of_def)
  have ind: "list_all is_space (replicate ?m 9)" by (simp add: list_all_length is_space_tab)
  from trim_indent_dash[OF ind not_space_dash] obtain r where tr: "trim (line_of f) = 45 # r"
    using line by metis
  then have hn: "rx_match True headerRegex (trim (line_of f)) = None"
    by (intro headerRegex_no_hash) simp
  from listRegex_on_shape[OF ind _ _ tx(1,3), of "[32]"] obtain w u
    where m: "rx_match True listRegex (line_of f) = Some [replicate ?m 9, [45], w, u]"
      and wu: "w @ u = [32] @ ?tx" "w \<noteq> []" "list_all is_space w"
    using line by (auto simp: is_space_blank)
  from space_run_single[OF _ wu(2,3) tx(1,2), of u 32] wu(1) have "w = [32]" "u = ?tx" by simp_all
  with m hn lm have "\<exists>g. parseLine (line_of f) i cid = Some (Node g []) \<and> node_type g = node_type f \<and>
              node_text g = node_text f \<and> level g = level f"
    using ListItem by (simp add: parseLine_def Let_def extractWikilinks_def indentLength_tabs)
  moreover have "trim (line_of f) \<noteq> []" using tr by simp
  ultimately show ?thesis by blast
qed

lemma split_lines_join:
  "ls \<noteq> [] \<Longrightarrow> \<forall>l \<in> set ls. 10 \<notin> set l \<Longrightarrow> split_lines (join_lines ls) = ls"
proof (induction ls rule: join_lines.induct)
  case 1
  then show ?case by simp
next
  case (2 l)
  then show ?case by (induction l) auto
next
  case (3 l v va)
  then have IH: "split_lines (join_lines (v # va)) = v # va" by simp
  from "3.prems" have "10 \<notin> set l" by simp
  then have "split_lines (l @ 10 # join_lines (v # va)) = l # split_lines (join_lines (v # va))"
    by (induction l) auto
  with IH show ?case by simp
qed

lemma line_of_no_newline: "text_ok f \<Longrightarrow> 10 \<notin> set (line_of f)"
  by (cases "node_type f")
     (auto simp: line_of_def text_ok_def list_all_iff is_dot_def is_line_terminator_def)

lemma tree_lines_no_newline:
  "roundtrippable t \<Longrightarrow> \<forall>l \<in> set (tree_lines t). 10 \<notin> set l"
proof (induction t)
  case (Node f cs)
  then show ?case by (auto simp: line_of_no_newline)
qed

subsection \<open>Updates of the tree under construction\<close>

definition append_children :: "MindmapNodeData list \<Rightarrow> MindmapNodeData \<Rightarrow> MindmapNodeData" where
  "append_children xs n = Node (fields n) (children n @ xs)"

lemma push_child_append: "push_child c = append_children [c]"
  by (rule ext) (simp add: push_child_def append_children_def)

lemma append_children_nil: "append_children [] n = n"
  by (cases n) (simp add: append_children_def)

lemma update_at_id: "update_at (\<lambda>n. n) p t = t"
proof (induction p arbitrary: t)
  case Nil
  then show ?case by simp
next
  case (Cons i p)
  then show ?case by (cases t) (simp add: list_update_same_conv)
qed

lemma update_at_twice: "update_at g p (update_at f p t) = update_at (\<lambda>n. g (f n)) p t"
proof (induction p arbitrary: t)
  case Nil
  then show ?case by simp
next
  case (Cons i p)
  then show ?case by simp
qed

lemma update_at_new_child:
  "node_at t p = Some P \<Longrightarrow>
     update_at g (p @ [length (children P)]) (update_at (push_child c) p t) =
       update_at (push_child (g c)) p t"
proof (induction p arbitrary: t)
  case Nil
  then show ?case by (simp add: push_child_def)
next
  case (Cons i p)
  then show ?case by (simp split: if_splits)
qed

lemma node_at_update_self: "node_at t p = Some P \<Longrightarrow> node_at (update_at f p t) p = Some (f P)"
proof (induction p arbitrary: t)
  case Nil
  then show ?case by simp
next
  case (Cons i p)
  then show ?case by (simp split: if_splits)
qed

lemma fields_update_at_append: "fields (update_at (append_children xs) p n) = fields n"
  by (cases p) (simp_all add: append_children_def)

lemma node_at_append_old:
  "node_at rt r = Some n \<Longrightarrow>
     \<exists>n'. node_at (update_at (append_children xs) pr rt) r = Some n' \<and> fields n' = fields n"
proof (induction r arbitrary: rt pr n)
  case Nil
  then show ?case by (simp add: fields_update_at_append)
next
  case (Cons i r)
  from Cons.prems have i: "i < length (children rt)" and n: "node_at (children rt ! i) r = Some n"
    by (simp_all split: if_splits)
  show ?case
  proof (cases pr)
    case Nil
    then show ?thesis using i n by (simp add: append_children_def nth_append)
  next
    case (Cons j p)
    show ?thesis
    proof (cases "j < length (children rt)")
      case False
      then show ?thesis using Cons.prems \<open>pr = j # p\<close> by simp
    next
      case True
      show ?thesis
      proof (cases "i = j")
        case True
        from Cons.IH[OF n, of p] show ?thesis using \<open>pr = j # p\<close> True i by simp
      next
        case False
        then show ?thesis using \<open>pr = j # p\<close> i n True by simp
      qed
    qed
  qed
qed

lemma parse_lines_append:
  "parse_lines s (xs @ ys) i =
     (case parse_lines s xs i of Inl e \<Rightarrow> Inl e | Inr s' \<Rightarrow> parse_lines s' ys (i + int (length xs)))"
proof (induction xs arbitrary: s i)
  case Nil
  then show ?case by simp
next
  case (Cons x xs)
  show ?case
  proof (cases "parse_step s x i")
    case (Inl e)
    then show ?thesis by simp
  next
    case (Inr s')
    have e: "i + int (length (x # xs)) = i + 1 + int (length xs)" by simp
    show ?thesis unfolding e using Cons[of s' "i + 1"] Inr by simp
  qed
qed

lemma find_rev_hit:
  "P r \<Longrightarrow> \<forall>x\<in>set rest. \<not> P x \<Longrightarrow> find P (rev (pre @ r # rest)) = Some r"
proof (induction rest rule: rev_induct)
  case Nil
  then show ?case by simp
next
  case (snoc x xs)
  then show ?case by simp
qed

subsection \<open>Parsing the lines of a tree\<close>

text \<open>
  \<open>tree_parses c\<close>: from any state whose stack holds, above the reference \<open>pr\<close> of a
  strictly shallower node, only entries at least as deep as \<open>c\<close>, the lines of \<open>c\<close>
  make the parser append a copy of \<open>c\<close> to the children of \<open>pr\<close> and leave above \<open>pr\<close>
  only entries at least as deep as \<open>c\<close>. \<open>forest_parses\<close> is the same for a sequence of
  siblings.
\<close>

lemma level_at_valid: "node_at R r = Some n \<Longrightarrow> level_at R r = level (fields n)"
  by (simp add: level_at_def)

lemma parse_step_line_of:
  assumes t: "text_ok f" and k: "kind_ok f" and P: "node_at R pr = Some P"
    and lP: "level (fields P) < level f"
    and rest: "\<forall>r \<in> set rest. \<exists>n. node_at R r = Some n \<and> level f \<le> level (fields n)"
  shows "\<exists>g. node_type g = node_type f \<and> node_text g = node_text f \<and> level g = level f \<and>
           parse_step (R, base @ pr # rest, cid) (line_of f) i =
             Inr (update_at (push_child (Node g [])) pr R,
                  base @ [pr, pr @ [length (children P)]], cid + 1)"
proof -
  from parseLine_line_of[OF t k, of i cid] obtain g
    where nb: "trim (line_of f) \<noteq> []"
      and pl: "parseLine (line_of f) i cid = Some (Node g [])"
      and g: "node_type g = node_type f" "node_text g = node_text f" "level g = level f"
    by blast
  let ?st = "base @ pr # rest"
  let ?R = "update_at (push_child (Node g [])) pr R"
  let ?Q = "\<lambda>r. level_at R r < level f"
  have "?Q pr" using lP level_at_valid[OF P] by simp
  moreover have "\<forall>x\<in>set rest. \<not> ?Q x" using rest level_at_valid by fastforce
  ultimately have "find ?Q (rev ?st) = Some pr" by (rule find_rev_hit)
  then have fp: "findParentNode R ?st (Node g []) = Some pr"
    by (simp add: findParentNode_find g(3))
  have lv: "level_at ?R r = level_at R r" if "node_at R r = Some n" for r n
  proof -
    from node_at_push_old[OF that, of "Node g []" pr] obtain n'
      where "node_at ?R r = Some n'" "fields n' = fields n" by blast
    with that show ?thesis by (simp add: level_at_def)
  qed
  have a: "\<not> level f \<le> level_at ?R pr" using lv[OF P] lP level_at_valid[OF P] by simp
  have b: "\<forall>x\<in>set rest. level f \<le> level_at ?R x"
  proof
    fix x assume "x \<in> set rest"
    with rest obtain n where n: "node_at R x = Some n" "level f \<le> level (fields n)" by blast
    with lv[OF n(1)] level_at_valid[OF n(1)] show "level f \<le> level_at ?R x" by simp
  qed
  from dropWhile_rev_split[of "\<lambda>r. level f \<le> level_at ?R r" pr rest base, OF a b]
  have us: "updateNodeStack ?R ?st (Node g []) (pr @ [length (children P)]) =
      base @ [pr, pr @ [length (children P)]]"
    by (simp add: updateNodeStack_dropWhile g(3))
  have "parse_step (R, ?st, cid) (line_of f) i =
      Inr (?R, base @ [pr, pr @ [length (children P)]], cid + 1)"
    using nb pl fp P us by (simp add: parse_step_def Let_def)
  with g show ?thesis by blast
qed

definition tree_parses :: "MindmapNodeData \<Rightarrow> bool" where
  "tree_parses c \<longleftrightarrow>
     (\<forall>R base pr rest P cid i.
        node_at R pr = Some P \<and> level (fields P) < level (fields c) \<and>
        (\<forall>r \<in> set rest. \<exists>n. node_at R r = Some n \<and> level (fields c) \<le> level (fields n))
        \<longrightarrow> (\<exists>c' rest'.
               parse_lines (R, base @ pr # rest, cid) (tree_lines c) i =
                 Inr (update_at (push_child c') pr R, base @ pr # rest',
                      cid + length (tree_lines c)) \<and>
               shape_of c' = shape_of c \<and>
               (\<forall>r \<in> set rest'. \<exists>n. node_at (update_at (push_child c') pr R) r = Some n \<and>
                  level (fields c) \<le> level (fields n))))"

definition forest_parses :: "MindmapNodeData list \<Rightarrow> bool" where
  "forest_parses cs \<longleftrightarrow>
     (\<forall>R base pr rest P cid i lb.
        node_at R pr = Some P \<and>
        (\<forall>c \<in> set cs. level (fields P) < level (fields c) \<and> lb \<le> level (fields c)) \<and>
        levels_fall cs \<and>
        (\<forall>r \<in> set rest. \<exists>n. node_at R r = Some n \<and> lb \<le> level (fields n) \<and>
           (\<forall>c \<in> set cs. level (fields c) \<le> level (fields n)))
        \<longrightarrow> (\<exists>cs' rest'.
               parse_lines (R, base @ pr # rest, cid) (concat (map tree_lines cs)) i =
                 Inr (update_at (append_children cs') pr R, base @ pr # rest',
                      cid + length (concat (map tree_lines cs))) \<and>
               map shape_of cs' = map shape_of cs \<and>
               (\<forall>r \<in> set rest'. \<exists>n. node_at (update_at (append_children cs') pr R) r = Some n \<and>
                  lb \<le> level (fields n))))"

lemma forest_from_trees: "\<forall>c \<in> set cs. tree_parses c \<Longrightarrow> forest_parses cs"
proof (induction cs)
  case Nil
  show ?case unfolding forest_parses_def
  proof (intro allI impI)
    fix R base pr rest P cid i lb
    assume a: "node_at R pr = Some P \<and>
        (\<forall>c \<in> set []. level (fields P) < level (fields c) \<and> lb \<le> level (fields c)) \<and>
        levels_fall [] \<and>
        (\<forall>r \<in> set rest. \<exists>n. node_at R r = Some n \<and> lb \<le> level (fields n) \<and>
           (\<forall>c \<in> set []. level (fields c) \<le> level (fields n)))"
    have R: "update_at (append_children []) pr R = R"
      using update_at_id[of pr R] by (simp add: append_children_nil[abs_def])
    have "parse_lines (R, base @ pr # rest, cid) (concat (map tree_lines [])) i =
        Inr (update_at (append_children []) pr R, base @ pr # rest,
             cid + length (concat (map tree_lines []))) \<and>
        map shape_of [] = map shape_of [] \<and>
        (\<forall>r \<in> set rest. \<exists>n. node_at (update_at (append_children []) pr R) r = Some n \<and>
           lb \<le> level (fields n))"
      using a unfolding R by auto
    then show "\<exists>cs' rest'.
        parse_lines (R, base @ pr # rest, cid) (concat (map tree_lines [])) i =
          Inr (update_at (append_children cs') pr R, base @ pr # rest',
               cid + length (concat (map tree_lines []))) \<and>
        map shape_of cs' = map shape_of [] \<and>
        (\<forall>r \<in> set rest'. \<exists>n. node_at (update_at (append_children cs') pr R) r = Some n \<and>
           lb \<le> level (fields n))"
      by blast
  qed
next
  case (Cons c cs)
  from Cons.prems have tc: "tree_parses c" and "\<forall>d \<in> set cs. tree_parses d" by simp_all
  with Cons.IH have fcs: "forest_parses cs" by simp
  show ?case unfolding forest_parses_def
  proof (intro allI impI)
    fix R base pr rest P cid i lb
    assume a: "node_at R pr = Some P \<and>
        (\<forall>d \<in> set (c # cs). level (fields P) < level (fields d) \<and> lb \<le> level (fields d)) \<and>
        levels_fall (c # cs) \<and>
        (\<forall>r \<in> set rest. \<exists>n. node_at R r = Some n \<and> lb \<le> level (fields n) \<and>
           (\<forall>d \<in> set (c # cs). level (fields d) \<le> level (fields n)))"
    then have P: "node_at R pr = Some P" and lc: "level (fields P) < level (fields c)"
      and lbc: "lb \<le> level (fields c)"
      and lcs: "\<forall>d \<in> set cs. level (fields P) < level (fields d) \<and> lb \<le> level (fields d)"
      and fall: "levels_fall cs" "\<forall>d \<in> set cs. level (fields d) \<le> level (fields c)"
      and rest: "\<forall>r \<in> set rest. \<exists>n. node_at R r = Some n \<and> level (fields c) \<le> level (fields n)"
      by (auto simp: levels_fall_def)
    from tc[unfolded tree_parses_def, rule_format, of R pr P rest base cid i] P lc rest
    obtain c' rest1 where
      run1: "parse_lines (R, base @ pr # rest, cid) (tree_lines c) i =
          Inr (update_at (push_child c') pr R, base @ pr # rest1, cid + length (tree_lines c))"
      and sh1: "shape_of c' = shape_of c"
      and rest1: "\<forall>r \<in> set rest1. \<exists>n. node_at (update_at (push_child c') pr R) r = Some n \<and>
          level (fields c) \<le> level (fields n)"
      by blast
    let ?R1 = "update_at (push_child c') pr R"
    have P1: "node_at ?R1 pr = Some (push_child c' P)" using P by (rule node_at_update_self)
    have pre2: "node_at ?R1 pr = Some (push_child c' P) \<and>
        (\<forall>d \<in> set cs. level (fields (push_child c' P)) < level (fields d) \<and> lb \<le> level (fields d)) \<and>
        levels_fall cs \<and>
        (\<forall>r \<in> set rest1. \<exists>n. node_at ?R1 r = Some n \<and> lb \<le> level (fields n) \<and>
           (\<forall>d \<in> set cs. level (fields d) \<le> level (fields n)))"
      using P1 lcs fall rest1 lbc by (fastforce simp: push_child_def)
    from fcs[unfolded forest_parses_def, rule_format, OF pre2,
        of base "cid + length (tree_lines c)" "i + int (length (tree_lines c))"]
    obtain cs' rest2 where
      run2: "parse_lines (?R1, base @ pr # rest1, cid + length (tree_lines c))
            (concat (map tree_lines cs)) (i + int (length (tree_lines c))) =
          Inr (update_at (append_children cs') pr ?R1, base @ pr # rest2,
               cid + length (tree_lines c) + length (concat (map tree_lines cs)))"
      and sh2: "map shape_of cs' = map shape_of cs"
      and rest2: "\<forall>r \<in> set rest2. \<exists>n. node_at (update_at (append_children cs') pr ?R1) r = Some n \<and>
          lb \<le> level (fields n)"
      by blast
    have R2: "update_at (append_children cs') pr ?R1 = update_at (append_children (c' # cs')) pr R"
      by (simp add: update_at_twice append_children_def[abs_def] push_child_def)
    have "parse_lines (R, base @ pr # rest, cid) (concat (map tree_lines (c # cs))) i =
        Inr (update_at (append_children (c' # cs')) pr R, base @ pr # rest2,
             cid + length (concat (map tree_lines (c # cs))))"
      using run1 run2 R2 by (simp add: parse_lines_append add.assoc)
    moreover have "map shape_of (c' # cs') = map shape_of (c # cs)" using sh1 sh2 by simp
    moreover have "\<forall>r \<in> set rest2. \<exists>n.
        node_at (update_at (append_children (c' # cs')) pr R) r = Some n \<and> lb \<le> level (fields n)"
      using rest2 R2 by simp
    ultimately show "\<exists>cs' rest'.
        parse_lines (R, base @ pr # rest, cid) (concat (map tree_lines (c # cs))) i =
          Inr (update_at (append_children cs') pr R, base @ pr # rest',
               cid + length (concat (map tree_lines (c # cs)))) \<and>
        map shape_of cs' = map shape_of (c # cs) \<and>
        (\<forall>r \<in> set rest'. \<exists>n. node_at (update_at (append_children cs') pr R) r = Some n \<and>
           lb \<le> level (fields n))"
      by blast
  qed
qed

lemma tree_parses_all: "roundtrippable c \<Longrightarrow> tree_parses c"
proof (induction c)
  case (Node f ds)
  from Node.prems have t: "text_ok f" and k: "kind_ok f"
    and sub: "\<forall>d \<in> set ds. level f < level (fields d) \<and> roundtrippable d"
    and fall: "levels_fall ds"
    by simp_all
  from sub Node.IH have "\<forall>d \<in> set ds. tree_parses d" by blast
  then have fds: "forest_parses ds" by (rule forest_from_trees)
  show ?case unfolding tree_parses_def
  proof (intro allI impI)
    fix R base pr rest P cid i
    assume a: "node_at R pr = Some P \<and> level (fields P) < level (fields (Node f ds)) \<and>
        (\<forall>r \<in> set rest. \<exists>n. node_at R r = Some n \<and>
           level (fields (Node f ds)) \<le> level (fields n))"
    then have P: "node_at R pr = Some P" and lP: "level (fields P) < level f"
      and rest: "\<forall>r \<in> set rest. \<exists>n. node_at R r = Some n \<and> level f \<le> level (fields n)"
      by simp_all
    from parse_step_line_of[OF t k P lP rest, of base cid i] obtain g
      where g: "node_type g = node_type f" "node_text g = node_text f" "level g = level f"
        and step: "parse_step (R, base @ pr # rest, cid) (line_of f) i =
          Inr (update_at (push_child (Node g [])) pr R,
               base @ [pr, pr @ [length (children P)]], cid + 1)"
      by blast
    let ?R1 = "update_at (push_child (Node g [])) pr R"
    let ?rc = "pr @ [length (children P)]"
    have rc: "node_at ?R1 ?rc = Some (Node g [])" using P by (rule node_at_push_new)
    have pre: "node_at ?R1 ?rc = Some (Node g []) \<and>
        (\<forall>d \<in> set ds. level (fields (Node g [])) < level (fields d) \<and> level f \<le> level (fields d)) \<and>
        levels_fall ds \<and>
        (\<forall>r \<in> set []. \<exists>n. node_at ?R1 r = Some n \<and> level f \<le> level (fields n) \<and>
           (\<forall>d \<in> set ds. level (fields d) \<le> level (fields n)))"
      using rc sub fall g(3) by auto
    from fds[unfolded forest_parses_def, rule_format, OF pre, of "base @ [pr]" "cid + 1" "i + 1"]
    obtain ds' rest2 where
      run: "parse_lines (?R1, (base @ [pr]) @ ?rc # [], cid + 1) (concat (map tree_lines ds)) (i + 1) =
          Inr (update_at (append_children ds') ?rc ?R1, (base @ [pr]) @ ?rc # rest2,
               cid + 1 + length (concat (map tree_lines ds)))"
      and sh: "map shape_of ds' = map shape_of ds"
      and rest2: "\<forall>r \<in> set rest2. \<exists>n. node_at (update_at (append_children ds') ?rc ?R1) r = Some n \<and>
          level f \<le> level (fields n)"
      by blast
    let ?c = "Node g ds'"
    have R2: "update_at (append_children ds') ?rc ?R1 = update_at (push_child ?c) pr R"
      using update_at_new_child[OF P, of "append_children ds'" "Node g []"]
      by (simp add: append_children_def)
    have "parse_lines (R, base @ pr # rest, cid) (tree_lines (Node f ds)) i =
        Inr (update_at (push_child ?c) pr R, base @ pr # (?rc # rest2),
             cid + length (tree_lines (Node f ds)))"
      using step run R2 by simp
    moreover have "shape_of ?c = shape_of (Node f ds)" using g sh by simp
    moreover have "\<forall>r \<in> set (?rc # rest2). \<exists>n.
        node_at (update_at (push_child ?c) pr R) r = Some n \<and>
        level (fields (Node f ds)) \<le> level (fields n)"
    proof -
      have "node_at (update_at (append_children ds') ?rc ?R1) ?rc = Some (append_children ds' (Node g []))"
        using rc by (rule node_at_update_self)
      then have "\<exists>n. node_at (update_at (push_child ?c) pr R) ?rc = Some n \<and>
          level f \<le> level (fields n)"
        unfolding R2 using g(3) by (simp add: append_children_def)
      with rest2 show ?thesis unfolding R2 by simp
    qed
    ultimately show "\<exists>c' rest'.
        parse_lines (R, base @ pr # rest, cid) (tree_lines (Node f ds)) i =
          Inr (update_at (push_child c') pr R, base @ pr # rest',
               cid + length (tree_lines (Node f ds))) \<and>
        shape_of c' = shape_of (Node f ds) \<and>
        (\<forall>r \<in> set rest'. \<exists>n. node_at (update_at (push_child c') pr R) r = Some n \<and>
           level (fields (Node f ds)) \<le> level (fields n))"
      by blast
  qed
qed

definition document_ok :: "MindmapNodeData \<Rightarrow> bool" where
  "document_ok t \<longleftrightarrow>
     node_id (fields t) = js ''root'' \<and> (\<forall>c \<in> set (children t). roundtrippable c) \<and>
     levels_fall (children t) \<and> fits (join_lines (concat (map tree_lines (children t))))"

lemma generateMarkdown_ok:
  assumes "document_ok t"
  shows "generateMarkdown t = Inr (join_lines (concat (map tree_lines (children t))))"
proof -
  obtain f cs where t: "t = Node f cs" by (cases t)
  with assms have r: "node_id f = js ''root''" "\<forall>c \<in> set cs. roundtrippable c"
    and j: "fits (join_lines (concat (map tree_lines cs)))"
    by (simp_all add: document_ok_def)
  have "\<forall>l \<in> set (concat (map tree_lines cs)). fits l"
  proof
    fix l assume "l \<in> set (concat (map tree_lines cs))"
    from line_le_join[OF this] j show "fits l" by (simp add: fits_def)
  qed
  with traverse_ok(2)[of cs] r t j show ?thesis
    by (simp add: generateMarkdown_def js_string_def fits_def)
qed

lemma roundtrippable_level: "roundtrippable c \<Longrightarrow> 1 \<le> level (fields c)"
  by (cases c) (auto simp: kind_ok_def split: node_type.splits)

definition mk ::
  "jsstring \<Rightarrow> node_type \<Rightarrow> int \<Rightarrow> jsstring \<Rightarrow> MindmapNodeData list \<Rightarrow> MindmapNodeData" where
  "mk i k l t cs =
     Node \<lparr> node_id = i, node_text = t, level = l, node_type = k, node_x = None, node_y = None,
            lineNumber = - 1, originalText = [], hasWikilink = False, wikilinks = [],
            color = None, collapsed = None \<rparr> cs"

definition outline_tree :: MindmapNodeData where
  "outline_tree =
     mk (js ''root'') Header 0 [] 
       [mk (js ''a'') Header 1 (js ''A'')
          [mk (js ''b'') Header 2 (js ''B'')
             [mk (js ''c'') ListItem 7 (js ''C'') [mk (js ''d'') ListItem 8 (js ''D'') []]],
           mk (js ''e'') Header 2 (js ''E'') []]]"

definition outline_text :: jsstring where
  "outline_text =
     js ''# A'' @ 10 # js ''## B'' @ 10 # js ''- C'' @ 10 # 9 # js ''- D'' @ 10 # js ''## E''"

definition stale_tree :: MindmapNodeData where
  "stale_tree =
     mk (js ''root'') Header 0 []
       [mk (js ''a'') Header 2 (js ''A'') [mk (js ''b'') Header 1 (js ''B'') []]]"

lemma replicate_numeral: "replicate (numeral k) x = x # replicate (pred_numeral k) x"
  by (simp add: numeral_eq_Suc)

lemmas tree_eval = mk_def generateMarkdown_def node_line_def repeat_def line_text_def
  js_string_def max_string_length_def replicate_numeral

text \<open>
  Where the round trip holds. For every tree under the synthetic root (the node with id
  \<open>root\<close>, and the only one with that id) that is built from header nodes of levels 1 to
  6 and list nodes of levels 7 and up, in which every child is strictly deeper than its
  parent and the levels of siblings never increase, whose texts are not empty, hold no
  line terminator, start with a non-blank code unit (and, for a header, end with one),
  in which no node has recorded wikilinks, and whose document is not longer than a
  string can be: \<open>generateMarkdown\<close> returns a text, \<open>parseMarkdown\<close> of that text returns
  a tree, and the two trees have the same shape, with the same kind and the same text at
  every corresponding node. Collapsed flags play no role.
\<close>

theorem round_trip:
  assumes "document_ok t"
  shows "\<exists>md t'. generateMarkdown t = Inr md \<and> parseMarkdown md = Inr t' \<and>
           map shape_of (children t') = map shape_of (children t)"
proof -
  let ?cs = "children t"
  let ?ls = "concat (map tree_lines ?cs)"
  from assms have rt: "\<forall>c \<in> set ?cs. roundtrippable c" and fall: "levels_fall ?cs"
    by (simp_all add: document_ok_def)
  have gm: "generateMarkdown t = Inr (join_lines ?ls)" using assms by (rule generateMarkdown_ok)
  show ?thesis
  proof (cases "?cs = []")
    case True
    then have "parseMarkdown (join_lines ?ls) = Inr root_node"
      by (simp add: parseMarkdown_def parse_step_def trim_def)
    with gm True show ?thesis by (simp add: root_node_def)
  next
    case False
    then obtain c cs where "?cs = c # cs" by (cases ?cs) auto
    then have ne: "?ls \<noteq> []" by (cases c) simp
    have "\<forall>l \<in> set ?ls. 10 \<notin> set l" using rt tree_lines_no_newline by auto
    with ne have sp: "split_lines (join_lines ?ls) = ?ls" by (rule split_lines_join)
    from rt have "\<forall>c \<in> set ?cs. tree_parses c" using tree_parses_all by blast
    then have fp: "forest_parses ?cs" by (rule forest_from_trees)
    have pre: "node_at root_node [] = Some root_node \<and>
        (\<forall>c \<in> set ?cs. level (fields root_node) < level (fields c) \<and> 1 \<le> level (fields c)) \<and>
        levels_fall ?cs \<and>
        (\<forall>r \<in> set []. \<exists>n. node_at root_node r = Some n \<and> 1 \<le> level (fields n) \<and>
           (\<forall>c \<in> set ?cs. level (fields c) \<le> level (fields n)))"
      using rt fall roundtrippable_level by (fastforce simp: root_node_def)
    from fp[unfolded forest_parses_def, rule_format, OF pre, of "[]" 1 0]
    obtain cs' rest' where
      run: "parse_lines (root_node, [] @ [] # [], 1) ?ls 0 =
          Inr (update_at (append_children cs') [] root_node, [] @ [] # rest', 1 + length ?ls)"
      and sh: "map shape_of cs' = map shape_of ?cs"
      by blast
    have "parseMarkdown (join_lines ?ls) = Inr (update_at (append_children cs') [] root_node)"
      using run sp by (simp add: parseMarkdown_def)
    moreover have "children (update_at (append_children cs') [] root_node) = cs'"
      by (simp add: append_children_def root_node_def)
    ultimately show ?thesis using gm sh by simp
  qed
qed

theorem round_trip_witness:
  "document_ok outline_tree
   \<and> generateMarkdown outline_tree = Inr outline_text
   \<and> (case parseMarkdown outline_text of
         Inr t' \<Rightarrow> map shape_of (children t') = map shape_of (children outline_tree)
       | Inl e \<Rightarrow> False)"
proof -
  have ok: "document_ok outline_tree"
    by (simp add: document_ok_def outline_tree_def mk_def text_ok_def kind_ok_def plain_def
        levels_fall_def js_def is_space_def is_dot_def is_line_terminator_def
        fits_def max_string_length_def line_of_def)
  have gm: "generateMarkdown outline_tree = Inr outline_text"
    by (simp add: outline_tree_def outline_text_def tree_eval js_def)
  from round_trip[OF ok] gm obtain t' where "parseMarkdown outline_text = Inr t'"
    "map shape_of (children t') = map shape_of (children outline_tree)"
    by auto
  with ok gm show ?thesis by simp
qed

text \<open>
  The levels are all the text records of the hierarchy. A tree whose levels do not follow
  its shape, as after a header of level 1 was dragged under a header of level 2
  (re-parenting leaves the levels as they are), is written with its stale levels, and
  the parser makes the two headers siblings.
\<close>

theorem stale_levels_come_back_flat:
  "generateMarkdown stale_tree = Inr (js ''## A'' @ 10 # js ''# B'')
   \<and> (case parseMarkdown (js ''## A'' @ 10 # js ''# B'') of
         Inr t' \<Rightarrow> map shape_of (children t') =
                    [Shape Header (js ''A'') [], Shape Header (js ''B'') []]
       | Inl e \<Rightarrow> False)
   \<and> map shape_of (children stale_tree) = [Shape Header (js ''A'') [Shape Header (js ''B'') []]]"
  by (simp add: stale_tree_def tree_eval parse_eval string_eval decimal.simps)

lemma wikilink_found: "extractWikilinks_loop [91, 91, 120, 93, 93] = [[120]]"
  by (simp add: extractWikilinks_loop.simps wikilinkRegex_def string_eval)

definition wikilink_tree :: MindmapNodeData where
  "wikilink_tree =
     Node (fields root_node)
       [Node \<lparr> node_id = js ''node-1'', node_text = js ''[[x]]'', level = 1, node_type = Header,
                node_x = None, node_y = None, lineNumber = 0, originalText = js ''# [[x]]'',
                hasWikilink = True, wikilinks = [js ''x''], color = Some Red,
                collapsed = None \<rparr> []]"

definition unmarked_tree :: MindmapNodeData where
  "unmarked_tree =
     Node (fields root_node)
       [Node \<lparr> node_id = js ''node-1'', node_text = js ''[[x]]'', level = 1, node_type = Header,
                node_x = None, node_y = None, lineNumber = 0, originalText = js ''# [[x]]'',
                hasWikilink = False, wikilinks = [js ''x''], color = Some Red,
                collapsed = None \<rparr> []]"

text \<open>
  Claim C1 fails in \<open>generateMarkdown\<close> on the parser's own output. The document
  \<open># [[x]]\<close> parses to a tree of one header, free of collapsed flags, that records the
  wikilink \<open>x\<close>; on that tree \<open>generateMarkdown\<close> raises a TypeError where it calls
  \<open>this.restoreWikilinks\<close>, and there is no text to parse again. The same tree without
  the flag \<open>hasWikilink\<close> is written as \<open># [[x]]\<close>, the text that \<open>restoreWikilinks\<close>,
  which returns its argument, is there to give, and that text parses to the first tree
  again.
\<close>

theorem generateMarkdown_raises_on_wikilink:
  "parseMarkdown (js ''# [[x]]'') = Inr wikilink_tree
   \<and> generateMarkdown wikilink_tree = Inl TypeError
   \<and> generateMarkdown unmarked_tree = Inr (js ''# [[x]]'')
   \<and> map shape_of (children wikilink_tree) = [Shape Header (js ''[[x]]'') []]"
proof -
  have "parseMarkdown (js ''# [[x]]'') = Inr wikilink_tree"
    by (simp add: parseMarkdown_def parse_step_def parseLine_def extractWikilinks_def wikilink_found
        findParentNode_def updateNodeStack_def updateNodeStack_loop.simps
        level_at_def push_child_def root_node_def string_eval decimal.simps wikilink_tree_def)
  moreover have "generateMarkdown wikilink_tree = Inl TypeError"
    by (simp add: wikilink_tree_def root_node_def tree_eval js_def)
  moreover have "generateMarkdown unmarked_tree = Inr (js ''# [[x]]'')"
    by (simp add: unmarked_tree_def root_node_def tree_eval js_def)
  moreover have "map shape_of (children wikilink_tree) = [Shape Header (js ''[[x]]'') []]"
    by (simp add: wikilink_tree_def)
  ultimately show ?thesis by (intro conjI)
qed

section \<open>The layout\<close>

text \<open>
  \<open>calculateNodePositions\<close> writes the coordinates of the nodes in place; the model
  returns the tree with the new coordinates. \<open>arrange_children\<close> is the \<open>forEach\<close> loop of
  \<open>arrangeHorizontalSubtree\<close> over the children and the heights computed for them, with
  its running \<open>currentY\<close>. Adding to a coordinate that is undefined gives no usable
  coordinate (\<open>None\<close>). \<open>min_slot\<close> is the height \<open>Math.max(100 - level * 10, 60)\<close> of
  a single node.
\<close>

datatype direction = DirLeft | DirRight

definition set_position :: "MindmapNodeData \<Rightarrow> real option \<Rightarrow> real option \<Rightarrow> MindmapNodeData" where
  "set_position n px py = Node ((fields n)\<lparr> node_x := px, node_y := py \<rparr>) (children n)"

definition min_slot :: "int \<Rightarrow> real" where
  "min_slot l = max (100 - real_of_int l * 10) 60"

fun calculateSubtreeHeight :: "MindmapNodeData \<Rightarrow> int \<Rightarrow> real" where
  "calculateSubtreeHeight (Node f cs) l =
     (if cs = [] \<or> collapsed f = Some True then min_slot l
      else max (sum_list (map (\<lambda>c. calculateSubtreeHeight c (l + 1)) cs)) (min_slot l))"

lemma size_set_position: "size (set_position n px py) = size n"
  by (cases n) (simp add: set_position_def)

lemma size_zip_children:
  "sum_list (map (\<lambda>z. Suc (size (fst z))) (zip cs (map g cs))) = size_list size cs"
  by (induction cs) simp_all

function arrangeHorizontalSubtree :: "MindmapNodeData \<Rightarrow> direction \<Rightarrow> int \<Rightarrow> MindmapNodeData"
  and arrange_children ::
    "(MindmapNodeData \<times> real) list \<Rightarrow> real option \<Rightarrow> real option \<Rightarrow> direction \<Rightarrow> int \<Rightarrow>
       MindmapNodeData list" where
  "arrangeHorizontalSubtree (Node f cs) d l =
     (if cs = [] then Node f cs
      else
        (let horizontalSpacing = max (220 - real_of_int l * 20) 150;
             directionMultiplier = (if d = DirRight then 1 else - 1);
             baseX = map_option (\<lambda>px. px + directionMultiplier * horizontalSpacing) (node_x f);
             childHeights = map (\<lambda>c. calculateSubtreeHeight c (l + 1)) cs;
             totalRequiredHeight = sum_list childHeights;
             currentY = map_option (\<lambda>py. py - totalRequiredHeight / 2) (node_y f)
         in Node f (arrange_children (zip cs childHeights) baseX currentY d l)))"
| "arrange_children [] baseX currentY d l = []"
| "arrange_children ((child, childHeight) # rest) baseX currentY d l =
     arrangeHorizontalSubtree
         (set_position child baseX (map_option (\<lambda>cy. cy + childHeight / 2) currentY)) d (l + 1)
       # arrange_children rest baseX (map_option (\<lambda>cy. cy + childHeight) currentY) d l"
  by pat_completeness auto
termination
proof (relation "measure (\<lambda>a. case a of
    Inl (n, d, l) \<Rightarrow> size n
  | Inr (zs, bx, cy, d, l) \<Rightarrow> sum_list (map (\<lambda>z. Suc (size (fst z))) zs))")
  show "wf (measure (\<lambda>a. case a of
    Inl (n, d, l) \<Rightarrow> size n
  | Inr (zs, bx, cy, d, l) \<Rightarrow> sum_list (map (\<lambda>z. Suc (size (fst z))) zs)))" by simp
qed (simp_all add: size_set_position size_zip_children)

declare arrangeHorizontalSubtree.simps [simp del]

definition arrangeHorizontalTree :: "MindmapNodeData \<Rightarrow> real \<Rightarrow> real \<Rightarrow> MindmapNodeData" where
  "arrangeHorizontalTree centerNode centerX centerY =
     (let mainBranches = children centerNode in
      if mainBranches = [] then centerNode
      else
        (let totalBranches = length mainBranches;
             rightCount = (totalBranches + 1) div 2;
             leftCount = totalBranches - rightCount;
             verticalSpacing = 100;
             horizontalDistance = 300;
             right = map (\<lambda>i. arrangeHorizontalSubtree
                             (set_position (mainBranches ! i)
                                (Some (centerX + horizontalDistance))
                                (Some (centerY + (real i - (real rightCount - 1) / 2) * verticalSpacing)))
                             DirRight 0)
                         [0..<rightCount];
             left = map (\<lambda>i. arrangeHorizontalSubtree
                            (set_position (mainBranches ! (rightCount + i))
                               (Some (centerX - horizontalDistance))
                               (Some (centerY + (real i - (real leftCount - 1) / 2) * verticalSpacing)))
                            DirLeft 0)
                        [0..<leftCount]
         in Node (fields centerNode) (right @ left)))"

definition calculateNodePositions :: "MindmapNodeData \<Rightarrow> MindmapNodeData" where
  "calculateNodePositions rootNode =
     (case children rootNode of
        [] \<Rightarrow> rootNode
      | centerNode # others \<Rightarrow>
          Node (fields rootNode)
            (arrangeHorizontalTree (set_position centerNode (Some 600) (Some 400)) 600 400 # others))"

fun erase_positions :: "MindmapNodeData \<Rightarrow> MindmapNodeData" where
  "erase_positions (Node f cs) =
     Node (f\<lparr> node_x := None, node_y := None \<rparr>) (map erase_positions cs)"

lemma erase_set_position: "erase_positions (set_position n px py) = erase_positions n"
  by (cases n) (simp add: set_position_def)

lemma zip_map_self: "zip cs (map g cs) = map (\<lambda>c. (c, g c)) cs"
  by (induction cs) simp_all

lemma arrange_frame:
  "erase_positions (arrangeHorizontalSubtree n d l) = erase_positions n"
  "map erase_positions (arrange_children zs bx cy d l) = map (\<lambda>z. erase_positions (fst z)) zs"
proof (induction n d l and zs bx cy d l rule: arrangeHorizontalSubtree_arrange_children.induct)
  case (1 f cs d l)
  show ?case
  proof (cases "cs = []")
    case True
    then show ?thesis by (simp add: arrangeHorizontalSubtree.simps)
  next
    case False
    with 1[OF False refl refl refl refl refl refl] show ?thesis
      by (simp add: arrangeHorizontalSubtree.simps Let_def zip_map_self comp_def)
  qed
next
  case (2 baseX currentY d l)
  then show ?case by simp
next
  case (3 child childHeight rest baseX currentY d l)
  then show ?case by (simp add: erase_set_position)
qed

lemma map_two_ranges:
  "r \<le> length xs \<Longrightarrow>
     map (\<lambda>i. g (xs ! i)) [0..<r] @ map (\<lambda>i. g (xs ! (r + i))) [0..<length xs - r] = map g xs"
  by (rule nth_equalityI) (auto simp: nth_append)

lemma arrangeHorizontalTree_frame:
  "erase_positions (arrangeHorizontalTree c cx cy) = erase_positions c"
proof (cases "children c = []")
  case True
  then show ?thesis by (simp add: arrangeHorizontalTree_def)
next
  case False
  let ?n = "length (children c)"
  have "(?n + 1) div 2 \<le> ?n" by simp
  from map_two_ranges[OF this, of erase_positions] False show ?thesis
    by (cases c)
      (simp add: arrangeHorizontalTree_def Let_def arrange_frame erase_set_position comp_def)
qed

subsection \<open>Sample trees\<close>

definition leaf :: "jsstring \<Rightarrow> int \<Rightarrow> MindmapNodeData" where
  "leaf t l = mk t Header l t []"

definition two_branches :: MindmapNodeData where
  "two_branches =
     mk (js ''root'') Header 0 []
       [mk (js ''c'') Header 1 (js ''C'')
          [mk (js ''a'') Header 2 (js ''A'') [leaf (js ''k1'') 3, leaf (js ''k2'') 3],
           leaf (js ''b'') 2]]"

definition three_branches :: MindmapNodeData where
  "three_branches =
     mk (js ''root'') Header 0 []
       [mk (js ''c'') Header 1 (js ''C'')
          [mk (js ''a'') Header 2 (js ''A'')
             [leaf (js ''k1'') 3, leaf (js ''k2'') 3, leaf (js ''k3'') 3],
           leaf (js ''b'') 2, leaf (js ''d'') 2]]"

lemmas layout_eval = calculateNodePositions_def arrangeHorizontalTree_def
  arrangeHorizontalSubtree.simps set_position_def min_slot_def Let_def mk_def leaf_def

lemma upt_2: "[0..<2] = [0, 1]"
  by (simp add: upt_rec numeral_2_eq_2)

subsection \<open>The layout writes coordinates only\<close>

lemma calculateNodePositions_erase:
  "erase_positions (calculateNodePositions t) = erase_positions t"
proof (cases t)
  case (Node f cs)
  then show ?thesis
    by (cases cs) (simp_all add: calculateNodePositions_def arrangeHorizontalTree_frame erase_set_position)
qed

text \<open>
  Claim C10. The tree after \<open>calculateNodePositions\<close> and the tree before it are the same
  once the coordinates are erased: every node keeps its id, text, level, type, color,
  collapsed flag, wikilinks and other fields, and its children in their order (and with
  them the parent of every node).
\<close>

theorem layout_frame: "erase_positions (calculateNodePositions t) = erase_positions t"
  by (rule calculateNodePositions_erase)

theorem layout_frame_witness:
  "erase_positions (calculateNodePositions two_branches) = two_branches
   \<and> calculateNodePositions two_branches \<noteq> two_branches"
proof -
  have "erase_positions two_branches = two_branches"
    by (simp add: two_branches_def mk_def leaf_def)
  moreover have "calculateNodePositions two_branches \<noteq> two_branches"
    by (simp add: two_branches_def layout_eval)
  ultimately show ?thesis using layout_frame[of two_branches] by simp
qed

subsection \<open>Reserved heights keep siblings apart\<close>

text \<open>
  \<open>clear_of l a b\<close>: both nodes have a vertical position and the extent reserved for
  \<open>a\<close>, of height \<open>calculateSubtreeHeight a l\<close> around its position, ends before the
  extent reserved for \<open>b\<close> begins. \<open>no_overlap l n\<close>: in the subtree of \<open>n\<close>, laid out at
  depth \<open>l\<close>, every two children of a node are clear of each other, the earlier before
  the later.
\<close>

lemma min_slot_pos: "60 \<le> min_slot l"
  by (simp add: min_slot_def)

lemma height_pos: "60 \<le> calculateSubtreeHeight n l"
proof (cases n)
  case (Node f cs)
  have "60 \<le> min_slot l" by (rule min_slot_pos)
  then show ?thesis using Node by (simp add: max_def)
qed

lemma height_erase:
  "erase_positions a = erase_positions b \<Longrightarrow> calculateSubtreeHeight a l = calculateSubtreeHeight b l"
proof (induction a arbitrary: b l)
  case (Node f cs)
  obtain g ds where b: "b = Node g ds" by (cases b)
  with Node.prems have eq: "f\<lparr>node_x := None, node_y := None\<rparr> = g\<lparr>node_x := None, node_y := None\<rparr>"
    and ch: "map erase_positions cs = map erase_positions ds"
    by simp_all
  from eq have "collapsed (f\<lparr>node_x := None, node_y := None\<rparr>) =
      collapsed (g\<lparr>node_x := None, node_y := None\<rparr>)"
    by (rule arg_cong)
  then have col: "collapsed f = collapsed g" by simp
  from ch have len: "length cs = length ds" by (rule map_eq_imp_length_eq)
  have "map (\<lambda>c. calculateSubtreeHeight c (l + 1)) cs = map (\<lambda>c. calculateSubtreeHeight c (l + 1)) ds"
  proof (rule nth_equalityI)
    show "length (map (\<lambda>c. calculateSubtreeHeight c (l + 1)) cs) =
        length (map (\<lambda>c. calculateSubtreeHeight c (l + 1)) ds)"
      using len by simp
  next
    fix i assume "i < length (map (\<lambda>c. calculateSubtreeHeight c (l + 1)) cs)"
    then have i: "i < length cs" by simp
    then have "erase_positions (cs ! i) = erase_positions (ds ! i)"
      using ch len by (metis nth_map)
    with Node.IH[of "cs ! i" "ds ! i" "l + 1"] i len
    show "map (\<lambda>c. calculateSubtreeHeight c (l + 1)) cs ! i =
        map (\<lambda>c. calculateSubtreeHeight c (l + 1)) ds ! i"
      by simp
  qed
  with col len b show ?case by auto
qed

lemma height_arranged:
  "calculateSubtreeHeight (arrangeHorizontalSubtree (set_position c px py) d l) k =
     calculateSubtreeHeight c k"
  by (rule height_erase) (simp add: arrange_frame erase_set_position)

lemma fields_arranged: "fields (arrangeHorizontalSubtree n d l) = fields n"
  by (cases n) (simp add: arrangeHorizontalSubtree.simps Let_def)

definition clear_of :: "int \<Rightarrow> MindmapNodeData \<Rightarrow> MindmapNodeData \<Rightarrow> bool" where
  "clear_of l a b \<longleftrightarrow>
     (\<exists>ya yb. node_y (fields a) = Some ya \<and> node_y (fields b) = Some yb \<and>
        ya + calculateSubtreeHeight a l / 2 \<le> yb - calculateSubtreeHeight b l / 2)"

fun no_overlap :: "int \<Rightarrow> MindmapNodeData \<Rightarrow> bool" where
  "no_overlap l (Node f cs) \<longleftrightarrow>
     sorted_wrt (clear_of (l + 1)) cs \<and> (\<forall>c \<in> set cs. no_overlap (l + 1) c)"

lemma arrange_children_clear:
  "sorted_wrt (clear_of (l + 1))
     (arrange_children (map (\<lambda>c. (c, calculateSubtreeHeight c (l + 1))) cs) bx (Some y0) d l)
   \<and> (\<forall>r \<in> set (arrange_children (map (\<lambda>c. (c, calculateSubtreeHeight c (l + 1))) cs) bx (Some y0) d l).
        \<exists>yr. node_y (fields r) = Some yr \<and> y0 \<le> yr - calculateSubtreeHeight r (l + 1) / 2)"
proof (induction cs arbitrary: y0)
  case Nil
  then show ?case by simp
next
  case (Cons c cs)
  let ?h = "calculateSubtreeHeight c (l + 1)"
  let ?r0 = "arrangeHorizontalSubtree (set_position c bx (Some (y0 + ?h / 2))) d (l + 1)"
  let ?rs = "arrange_children (map (\<lambda>c. (c, calculateSubtreeHeight c (l + 1))) cs) bx (Some (y0 + ?h)) d l"
  have res: "arrange_children (map (\<lambda>c. (c, calculateSubtreeHeight c (l + 1))) (c # cs)) bx (Some y0) d l
      = ?r0 # ?rs"
    by simp
  have y0: "node_y (fields ?r0) = Some (y0 + ?h / 2)"
    by (simp add: fields_arranged set_position_def)
  have h0: "calculateSubtreeHeight ?r0 (l + 1) = ?h" by (rule height_arranged)
  have hp: "0 \<le> ?h" using height_pos[of c "l + 1"] by simp
  from Cons.IH[of "y0 + ?h"] have s: "sorted_wrt (clear_of (l + 1)) ?rs"
    and b: "\<forall>r \<in> set ?rs. \<exists>yr. node_y (fields r) = Some yr \<and>
        y0 + ?h \<le> yr - calculateSubtreeHeight r (l + 1) / 2"
    by blast+
  have "\<forall>r \<in> set ?rs. clear_of (l + 1) ?r0 r"
  proof
    fix r assume "r \<in> set ?rs"
    with b obtain yr where "node_y (fields r) = Some yr"
      "y0 + ?h \<le> yr - calculateSubtreeHeight r (l + 1) / 2" by blast
    with y0 h0 show "clear_of (l + 1) ?r0 r" by (simp add: clear_of_def)
  qed
  with s have 1: "sorted_wrt (clear_of (l + 1)) (?r0 # ?rs)" by simp
  have 2: "\<forall>r \<in> set (?r0 # ?rs). \<exists>yr. node_y (fields r) = Some yr \<and>
      y0 \<le> yr - calculateSubtreeHeight r (l + 1) / 2"
  proof
    fix r assume "r \<in> set (?r0 # ?rs)"
    then consider "r = ?r0" | "r \<in> set ?rs" by auto
    then show "\<exists>yr. node_y (fields r) = Some yr \<and> y0 \<le> yr - calculateSubtreeHeight r (l + 1) / 2"
    proof cases
      case 1
      with y0 h0 show ?thesis by simp
    next
      case 2
      with b obtain yr where "node_y (fields r) = Some yr"
        "y0 + ?h \<le> yr - calculateSubtreeHeight r (l + 1) / 2" by blast
      with hp show ?thesis by auto
    qed
  qed
  from 1 2 show ?case unfolding res by blast
qed

lemma arrange_no_overlap:
  "node_y (fields n) \<noteq> None \<Longrightarrow> no_overlap l (arrangeHorizontalSubtree n d l)"
  "cy \<noteq> None \<Longrightarrow> \<forall>r \<in> set (arrange_children zs bx cy d l). no_overlap (l + 1) r"
proof (induction n d l and zs bx cy d l rule: arrangeHorizontalSubtree_arrange_children.induct)
  case (1 f cs d l)
  show ?case
  proof (cases "cs = []")
    case True
    then show ?thesis by (simp add: arrangeHorizontalSubtree.simps)
  next
    case False
    from "1.prems" obtain py where py: "node_y f = Some py" by auto
    let ?hs = "map (\<lambda>c. calculateSubtreeHeight c (l + 1)) cs"
    let ?bx = "map_option (\<lambda>px. px + (if d = DirRight then 1 else - 1) * max (220 - real_of_int l * 20) 150) (node_x f)"
    let ?cy = "map_option (\<lambda>py. py - sum_list ?hs / 2) (node_y f)"
    have cy: "?cy = Some (py - sum_list ?hs / 2)" using py by simp
    have res: "arrangeHorizontalSubtree (Node f cs) d l =
        Node f (arrange_children (zip cs ?hs) ?bx ?cy d l)"
      using False by (simp add: arrangeHorizontalSubtree.simps Let_def)
    have "\<forall>r \<in> set (arrange_children (zip cs ?hs) ?bx ?cy d l). no_overlap (l + 1) r"
      using 1(1)[OF False refl refl refl refl refl refl] cy by simp
    moreover have "sorted_wrt (clear_of (l + 1)) (arrange_children (zip cs ?hs) ?bx ?cy d l)"
      using arrange_children_clear[of l cs ?bx "py - sum_list ?hs / 2" d]
      unfolding cy zip_map_self by blast
    ultimately show ?thesis unfolding res by simp
  qed
next
  case (2 baseX currentY d l)
  then show ?case by simp
next
  case (3 child childHeight rest baseX currentY d l)
  from "3.prems" obtain y0 where "currentY = Some y0" by auto
  with 3 show ?case by (simp add: set_position_def)
qed

text \<open>
  Claim C3, as amended. After \<open>calculateNodePositions\<close>, for every main branch (a child
  of the center node, the first child of the root) and every node below it, any two
  children A and B of that node, A before B, satisfy
  \<open>y(A) + subtreeHeight(A)/2 \<le> y(B) - subtreeHeight(B)/2\<close>, the heights being those the
  layout reserves at their depth.
\<close>

theorem layout_no_overlap:
  assumes "children (calculateNodePositions t) = center # others" and "b \<in> set (children center)"
  shows "no_overlap 0 b"
proof -
  obtain f cs where t: "t = Node f cs" by (cases t)
  with assms(1) obtain c0 os where cs: "cs = c0 # os"
    by (cases cs) (auto simp: calculateNodePositions_def)
  with t assms(1) have c: "center = arrangeHorizontalTree (set_position c0 (Some 600) (Some 400)) 600 400"
    by (simp add: calculateNodePositions_def)
  let ?c = "set_position c0 (Some 600) (Some 400)"
  show ?thesis
  proof (cases "children ?c = []")
    case True
    with c assms(2) show ?thesis by (simp add: arrangeHorizontalTree_def)
  next
    case False
    with c assms(2) obtain n px py d where "b = arrangeHorizontalSubtree (set_position n px (Some py)) d 0"
      by (auto simp: arrangeHorizontalTree_def Let_def)
    then show ?thesis using arrange_no_overlap(1)[of "set_position n px (Some py)" 0 d]
      by (simp add: set_position_def)
  qed
qed

theorem layout_no_overlap_witness:
  "map (\<lambda>b. map (\<lambda>k. node_y (fields k)) (children b))
      (children (hd (children (calculateNodePositions two_branches))))
     = [[Some 355, Some 445], []]
   \<and> no_overlap 0 (hd (children (hd (children (calculateNodePositions two_branches)))))"
proof -
  let ?t = "calculateNodePositions two_branches"
  have ev: "map (\<lambda>b. map (\<lambda>k. node_y (fields k)) (children b)) (children (hd (children ?t)))
      = [[Some 355, Some 445], []]"
    by (simp add: two_branches_def layout_eval)
  have c: "children ?t = hd (children ?t) # []"
    by (simp add: two_branches_def layout_eval)
  have b: "hd (children (hd (children ?t))) \<in> set (children (hd (children ?t)))"
    by (simp add: two_branches_def layout_eval)
  from layout_no_overlap[OF c b] ev show ?thesis by simp
qed

text \<open>
  The claim as it was stated, for the children of any positioned node, fails for the
  children of the center node: \<open>arrangeHorizontalTree\<close> stacks the main branches of a
  side 100 apart whatever their heights, here a branch with three children, of height
  270, at 350 and the next branch of the same side at 450.
\<close>

theorem layout_main_branches_counterexample:
  "map (\<lambda>b. (node_x (fields b), node_y (fields b), calculateSubtreeHeight b 0))
      (children (hd (children (calculateNodePositions three_branches))))
     = [(Some 900, Some 350, 270), (Some 900, Some 450, 100), (Some 300, Some 400, 100)]
   \<and> \<not> sorted_wrt (clear_of 0) (children (hd (children (calculateNodePositions three_branches))))"
  by (simp add: three_branches_def layout_eval upt_2 clear_of_def)

subsection \<open>Collapsed nodes\<close>

lemma collapsed_height:
  "collapsed f = Some True \<Longrightarrow> calculateSubtreeHeight (Node f cs) l = max (100 - real_of_int l * 10) 60"
  by (simp add: min_slot_def)

definition collapsed_branch :: MindmapNodeData where
  "collapsed_branch =
     mk (js ''root'') Header 0 []
       [mk (js ''c'') Header 1 (js ''C'')
          [Node ((fields (leaf (js ''a'') 2))\<lparr> collapsed := Some True \<rparr>) [leaf (js ''k'') 3]]]"

text \<open>
  Claim C6 holds for the heights (\<open>collapsed_height\<close>) and fails for the placement:
  \<open>arrangeHorizontalSubtree\<close> does not look at the collapsed flag. Here the child of a
  collapsed main branch has no position before the layout and the position (1120, 400)
  after it, while the branch reserves the height 100 of a single node.
\<close>

theorem collapsed_descendant_positioned:
  "map (\<lambda>a. (collapsed (fields a), calculateSubtreeHeight a 0,
              map (\<lambda>k. (node_x (fields k), node_y (fields k))) (children a)))
      (children (hd (children collapsed_branch)))
     = [(Some True, 100, [(None, None)])]
   \<and> map (\<lambda>a. (collapsed (fields a), calculateSubtreeHeight a 0,
                map (\<lambda>k. (node_x (fields k), node_y (fields k))) (children a)))
        (children (hd (children (calculateNodePositions collapsed_branch))))
     = [(Some True, 100, [(Some 1120, Some 400)])]"
  by (simp add: collapsed_branch_def layout_eval)

section \<open>The view\<close>

subsection \<open>The state of the view and of its canvas\<close>

text \<open>
  The view holds the tree (\<open>mindmapData\<close>), the undo history and its index; the canvas holds
  the id of the selected node. The history holds objects: \<open>undo\<close> assigns
  \<open>history[historyIndex]\<close> itself to \<open>mindmapData\<close>, so that later writes to the tree are
  writes to that entry too. \<open>liveSlot\<close> records which entry, if any, is the tree, and
  \<open>mutate_live\<close> writes through to it. A node object is referred to by its path from the
  root; \<open>findNodeById\<close> returns the first node, depth first, that has the id. The reading of
  the clock (\<open>Date.now()\<close>) is an argument of \<open>addChildToSelectedNode\<close>. Notices and the
  debounced auto-save do not touch this state.
\<close>

datatype view_state =
  View (mindmapData: "MindmapNodeData option") (history: "MindmapNodeData list")
       (historyIndex: int) (liveSlot: "nat option") (selectedNodeId: "jsstring option")

fun findNodeById :: "MindmapNodeData \<Rightarrow> jsstring \<Rightarrow> node_ref option"
  and findNodeById_children :: "MindmapNodeData list \<Rightarrow> nat \<Rightarrow> jsstring \<Rightarrow> node_ref option" where
  "findNodeById (Node f cs) i = (if node_id f = i then Some [] else findNodeById_children cs 0 i)"
| "findNodeById_children [] k i = None"
| "findNodeById_children (c # cs) k i =
     (case findNodeById c i of
        Some p \<Rightarrow> Some (k # p)
      | None \<Rightarrow> findNodeById_children cs (k + 1) i)"

definition getSelectedNode :: "view_state \<Rightarrow> node_ref option" where
  "getSelectedNode s =
     (case selectedNodeId s of
        None \<Rightarrow> None
      | Some i \<Rightarrow>
          if i = [] then None
          else (case mindmapData s of None \<Rightarrow> None | Some t \<Rightarrow> findNodeById t i))"

fun createCleanCopy :: "MindmapNodeData \<Rightarrow> MindmapNodeData" where
  "createCleanCopy (Node f cs) =
     Node \<lparr> node_id = node_id f, node_text = node_text f, level = level f,
            node_type = node_type f, node_x = node_x f, node_y = node_y f,
            lineNumber = lineNumber f, originalText = originalText f,
            hasWikilink = hasWikilink f, wikilinks = wikilinks f,
            color = color f, collapsed = collapsed f \<rparr>
       (map createCleanCopy cs)"

definition slice0 :: "'a list \<Rightarrow> int \<Rightarrow> 'a list" where
  "slice0 xs e = (if 0 \<le> e then take (nat e) xs else take (length xs - nat (- e)) xs)"

definition mutate_live :: "(MindmapNodeData \<Rightarrow> MindmapNodeData) \<Rightarrow> view_state \<Rightarrow> view_state" where
  "mutate_live g s =
     (case mindmapData s of
        None \<Rightarrow> s
      | Some t \<Rightarrow>
          View (Some (g t))
               (case liveSlot s of
                  None \<Rightarrow> history s
                | Some k \<Rightarrow> (history s)[k := g t])
               (historyIndex s) (liveSlot s) (selectedNodeId s))"

definition saveToHistory :: "view_state \<Rightarrow> view_state" where
  "saveToHistory s =
     (case mindmapData s of
        None \<Rightarrow> s
      | Some t \<Rightarrow>
          (let cleanState = createCleanCopy t;
               kept = slice0 (history s) (historyIndex s + 1);
               slot = (case liveSlot s of
                         None \<Rightarrow> None
                       | Some k \<Rightarrow> if k < length kept then Some k else None);
               pushed = kept @ [cleanState];
               idx = historyIndex s + 1
           in if 20 < length pushed
              then View (mindmapData s) (tl pushed) (idx - 1)
                     (case slot of
                        None \<Rightarrow> None
                      | Some k \<Rightarrow> if k = 0 then None else Some (k - 1))
                     (selectedNodeId s)
              else View (mindmapData s) pushed idx slot (selectedNodeId s)))"

definition renderMindmap :: "view_state \<Rightarrow> view_state" where
  "renderMindmap s = View (mindmapData s) (history s) (historyIndex s) (liveSlot s) None"

definition selectNode :: "jsstring \<Rightarrow> view_state \<Rightarrow> view_state" where
  "selectNode i s = View (mindmapData s) (history s) (historyIndex s) (liveSlot s) (Some i)"

definition recalculateAndRender :: "view_state \<Rightarrow> view_state" where
  "recalculateAndRender s =
     (case mindmapData s of
        None \<Rightarrow> s
      | Some t \<Rightarrow> renderMindmap (mutate_live calculateNodePositions s))"

definition new_child :: "nat \<Rightarrow> node_fields \<Rightarrow> MindmapNodeData" where
  "new_child now selectedNode =
     Node \<lparr> node_id = js ''node-'' @ decimal now, node_text = [26032, 33410, 28857],
            level = level selectedNode + 1,
            node_type = (if node_type selectedNode = Header \<and> level selectedNode < 6
                         then Header else ListItem),
            node_x = None, node_y = None, lineNumber = - 1, originalText = [],
            hasWikilink = False, wikilinks = [], color = None, collapsed = None \<rparr> []"

definition addChildToSelectedNode :: "nat \<Rightarrow> view_state \<Rightarrow> view_state" where
  "addChildToSelectedNode now s =
     (case getSelectedNode s of
        None \<Rightarrow> s
      | Some r \<Rightarrow>
          (case mindmapData s of
             None \<Rightarrow> s
           | Some t \<Rightarrow>
               (case node_at t r of
                  None \<Rightarrow> s
                | Some selectedNode \<Rightarrow>
                    (let s1 = saveToHistory s;
                         newNode = new_child now (fields selectedNode);
                         s2 = mutate_live (update_at (push_child newNode) r) s1;
                         s3 = mutate_live calculateNodePositions s2;
                         s4 = renderMindmap s3
                     in selectNode (node_id (fields newNode)) s4))))"

definition undo :: "view_state \<Rightarrow> js_error + view_state" where
  "undo s =
     (if 0 < historyIndex s then
        (let idx = historyIndex s - 1 in
         if nat idx < length (history s) then
           (let previousState = history s ! nat idx;
                s1 = View (Some previousState) (history s) idx (Some (nat idx))
                       (selectedNodeId s)
            in Inr (recalculateAndRender s1))
         else Inl TypeError)
      else Inr s)"

definition loaded :: "MindmapNodeData \<Rightarrow> view_state" where
  "loaded t = View (Some (calculateNodePositions t)) [] (- 1) None None"


subsection \<open>A sample view\<close>

text \<open>
  The document \<open># A\<close>, loaded, with its only node selected.
\<close>

definition sample_view :: view_state where
  "sample_view = selectNode (js ''node-1'') (loaded (Node (fields root_node) [Node sample_A []]))"

lemma parse_single: "parseMarkdown (js ''# A'') = Inr (Node (fields root_node) [Node sample_A []])"
  by (simp add: parse_eval string_eval decimal.simps sample_A_def)

lemmas view_eval = sample_view_def selectNode_def loaded_def getSelectedNode_def
  addChildToSelectedNode_def saveToHistory_def mutate_live_def renderMindmap_def new_child_def
  slice0_def push_child_def sample_A_def root_node_def js_def

lemma sample_view_selected: "getSelectedNode sample_view = Some [0]"
  by (simp add: view_eval layout_eval)


subsection \<open>Adding a child\<close>

lemma createCleanCopy_same: "createCleanCopy t = t"
proof (induction t)
  case (Node f cs)
  then show ?case by (simp add: map_idI)
qed

lemma mindmapData_saveToHistory: "mindmapData (saveToHistory s) = mindmapData s"
  by (cases "mindmapData s") (simp_all add: saveToHistory_def Let_def)

lemma selected_saveToHistory: "selectedNodeId (saveToHistory s) = selectedNodeId s"
  by (cases "mindmapData s") (simp_all add: saveToHistory_def Let_def)

lemma mindmapData_mutate_live: "mindmapData (mutate_live g s) = map_option g (mindmapData s)"
  by (cases "mindmapData s") (simp_all add: mutate_live_def)

lemma erase_node_at:
  "erase_positions a = erase_positions b \<Longrightarrow> node_at a r = Some pa \<Longrightarrow>
     \<exists>pb. node_at b r = Some pb \<and> erase_positions pb = erase_positions pa"
proof (induction r arbitrary: a b)
  case Nil
  then show ?case by simp
next
  case (Cons i r)
  obtain f cs where a: "a = Node f cs" by (cases a)
  obtain g ds where b: "b = Node g ds" by (cases b)
  from Cons.prems(1) a b have m: "map erase_positions cs = map erase_positions ds" by simp
  then have len: "length cs = length ds" by (rule map_eq_imp_length_eq)
  from Cons.prems(2) a have i: "i < length cs" and n: "node_at (cs ! i) r = Some pa"
    by (simp_all split: if_splits)
  from m i len have "erase_positions (cs ! i) = erase_positions (ds ! i)" by (metis nth_map)
  from Cons.IH[OF this n] show ?case using b i len by simp
qed

lemma erase_new_child: "erase_positions (new_child now f) = new_child now f"
  by (simp add: new_child_def)


text \<open>
  Claim C7. When a node \<open>p\<close> is selected, \<open>addChildToSelectedNode\<close> leaves a tree that is,
  coordinates apart, the old tree with one new node pushed at the end of the children of
  \<open>p\<close>: the children of \<open>p\<close> are the old ones in their order followed by the new node. The
  new node has no children and level \<open>level p + 1\<close>; it is a list item if \<open>p\<close> is a list item
  or a header of level 6 or more, and a header otherwise.
\<close>

theorem add_child:
  assumes sel: "getSelectedNode s = Some r" and data: "mindmapData s = Some t"
    and p: "node_at t r = Some p"
  shows "\<exists>t' p'. mindmapData (addChildToSelectedNode now s) = Some t' \<and>
           erase_positions t' =
             erase_positions (update_at (push_child (new_child now (fields p))) r t) \<and>
           node_at t' r = Some p' \<and>
           map erase_positions (children p') =
             map erase_positions (children p) @ [new_child now (fields p)] \<and>
           children (new_child now (fields p)) = [] \<and>
           level (fields (new_child now (fields p))) = level (fields p) + 1 \<and>
           node_type (fields (new_child now (fields p))) =
             (if node_type (fields p) = ListItem \<or>
                 (node_type (fields p) = Header \<and> 6 \<le> level (fields p))
              then ListItem else Header)"
proof -
  let ?c = "new_child now (fields p)"
  let ?u = "update_at (push_child ?c) r t"
  let ?t = "calculateNodePositions ?u"
  have d: "mindmapData (addChildToSelectedNode now s) = Some ?t"
    using sel data p
    by (simp add: addChildToSelectedNode_def Let_def selectNode_def renderMindmap_def
        mindmapData_mutate_live mindmapData_saveToHistory)
  have e: "erase_positions ?t = erase_positions ?u" by (rule calculateNodePositions_erase)
  have "node_at ?u r = Some (push_child ?c p)" using p by (rule node_at_update_self)
  from erase_node_at[OF e[symmetric] this] obtain p' where p': "node_at ?t r = Some p'"
    "erase_positions p' = erase_positions (push_child ?c p)"
    by blast
  have "map erase_positions (children p') = map erase_positions (children p) @ [?c]"
  proof -
    from p'(2) have "children (erase_positions p') = children (erase_positions (push_child ?c p))"
      by simp
    then show ?thesis
      by (cases p', cases p) (simp add: push_child_def erase_new_child)
  qed
  moreover have "node_type (fields ?c) =
      (if node_type (fields p) = ListItem \<or> (node_type (fields p) = Header \<and> 6 \<le> level (fields p))
       then ListItem else Header)"
    by (cases "node_type (fields p)") (auto simp: new_child_def)
  moreover have "children ?c = []" "level (fields ?c) = level (fields p) + 1"
    by (simp_all add: new_child_def)
  ultimately show ?thesis using d e p'(1) by blast
qed



theorem add_child_witness:
  "getSelectedNode sample_view = Some [0]
   \<and> (\<exists>t p. mindmapData sample_view = Some t \<and> node_at t [0] = Some p \<and> children p = [] \<and>
          node_type (fields p) = Header \<and> level (fields p) = 1)
   \<and> (\<exists>t' p'. mindmapData (addChildToSelectedNode 5 sample_view) = Some t' \<and>
          node_at t' [0] = Some p' \<and>
          map (\<lambda>c. (node_id (fields c), node_type (fields c), level (fields c), children c))
            (children p') = [(js ''node-5'', Header, 2, [])])"
proof -
  let ?t = "calculateNodePositions (Node (fields root_node) [Node sample_A []])"
  have d: "mindmapData sample_view = Some ?t" by (simp add: view_eval)
  obtain p where p: "node_at ?t [0] = Some p" "children p = []" "node_type (fields p) = Header"
    "level (fields p) = 1"
    by (simp add: layout_eval sample_A_def root_node_def)
  from add_child[OF sample_view_selected d p(1), of 5] obtain t' p' where
    t': "mindmapData (addChildToSelectedNode 5 sample_view) = Some t'" "node_at t' [0] = Some p'"
    and c: "map erase_positions (children p') = map erase_positions (children p) @ [new_child 5 (fields p)]"
    by blast
  from c p(2) obtain c' where c': "children p' = [c']" "erase_positions c' = new_child 5 (fields p)"
    by auto
  obtain g ds where g: "c' = Node g ds" by (cases c')
  with c'(2) p(3,4) have "node_id g = js ''node-5''" "node_type g = Header" "level g = 2" "ds = []"
    by (auto simp: new_child_def decimal.simps js_def dest: arg_cong[where f = node_id]
        arg_cong[where f = node_type] arg_cong[where f = level])
  with c'(1) g have m: "map (\<lambda>c. (node_id (fields c), node_type (fields c), level (fields c), children c))
            (children p') = [(js ''node-5'', Header, 2, [])]"
    by simp
  have a: "\<exists>t p. mindmapData sample_view = Some t \<and> node_at t [0] = Some p \<and> children p = [] \<and>
          node_type (fields p) = Header \<and> level (fields p) = 1"
    using d p by (intro exI conjI)
  have b: "\<exists>t' p'. mindmapData (addChildToSelectedNode 5 sample_view) = Some t' \<and>
          node_at t' [0] = Some p' \<and>
          map (\<lambda>c. (node_id (fields c), node_type (fields c), level (fields c), children c))
            (children p') = [(js ''node-5'', Header, 2, [])]"
    using t' m by (intro exI conjI)
  from sample_view_selected a b show ?thesis by (intro conjI)
qed


subsection \<open>The ids of a tree\<close>

definition ids :: "MindmapNodeData \<Rightarrow> jsstring list" where
  "ids t = map node_id (all_nodes t)"

lemma findNodeById_valid:
  "findNodeById t i = Some r \<Longrightarrow> node_at t r \<noteq> None"
  "findNodeById_children cs k i = Some r \<Longrightarrow>
     \<exists>j r'. r = (k + j) # r' \<and> j < length cs \<and> node_at (cs ! j) r' \<noteq> None"
proof (induction t i and cs k i arbitrary: r and r rule: findNodeById_findNodeById_children.induct)
  case (1 f cs i)
  show ?case
  proof (cases "node_id f = i")
    case True
    with "1.prems" show ?thesis by simp
  next
    case False
    with "1.prems" have "findNodeById_children cs 0 i = Some r" by simp
    from "1.IH"[OF False this] show ?thesis by auto
  qed
next
  case (2 k i)
  then show ?case by simp
next
  case (3 c cs k i)
  show ?case
  proof (cases "findNodeById c i")
    case None
    with "3.prems" have "findNodeById_children cs (k + 1) i = Some r" by simp
    from "3.IH"(2)[OF None this] obtain j r' where "r = (k + 1 + j) # r'" "j < length cs"
      "node_at (cs ! j) r' \<noteq> None" by blast
    then have "r = (k + Suc j) # r' \<and> Suc j < length (c # cs) \<and> node_at ((c # cs) ! Suc j) r' \<noteq> None"
      by simp
    then show ?thesis by blast
  next
    case (Some p)
    with "3.prems" have r: "r = k # p" by simp
    from "3.IH"(1)[OF Some] have "node_at c p \<noteq> None" .
    with r have "r = (k + 0) # p \<and> 0 < length (c # cs) \<and> node_at ((c # cs) ! 0) p \<noteq> None"
      by simp
    then show ?thesis by blast
  qed
qed

lemma findNodeById_finds:
  "i \<in> set (map node_id (all_nodes t)) \<Longrightarrow> findNodeById t i \<noteq> None"
  "i \<in> set (map node_id (concat (map all_nodes cs))) \<Longrightarrow> findNodeById_children cs k i \<noteq> None"
proof (induction t i and cs k i rule: findNodeById_findNodeById_children.induct)
  case (1 f cs i)
  then show ?case by auto
next
  case (2 k i)
  then show ?case by simp
next
  case (3 c cs k i)
  then show ?case by (cases "findNodeById c i") auto
qed

lemma all_nodes_erase:
  "all_nodes (erase_positions t) = map (\<lambda>f. f\<lparr> node_x := None, node_y := None \<rparr>) (all_nodes t)"
proof (induction t)
  case (Node f cs)
  have "concat (map (all_nodes \<circ> erase_positions) cs) =
      concat (map (\<lambda>c. map (\<lambda>f. f\<lparr> node_x := None, node_y := None \<rparr>) (all_nodes c)) cs)"
    using Node.IH by (intro arg_cong[where f = concat] map_cong) simp_all
  then show ?case by (simp add: map_concat comp_def)
qed

lemma ids_erase: "ids (erase_positions t) = ids t"
  by (simp add: ids_def all_nodes_erase comp_def)

lemma ids_layout: "ids (calculateNodePositions t) = ids t"
  using ids_erase[of "calculateNodePositions t"] ids_erase[of t] by (simp add: calculateNodePositions_erase)


text \<open>
  Claim C9 fails in \<open>addChildToSelectedNode\<close>: the parser numbers the nodes with a counter,
  but a new child is named after the reading of the clock. Two children added at the same
  reading, here to the parse of \<open># A\<close> with its node selected, carry the same id.
\<close>

theorem duplicate_ids:
  "parseMarkdown (js ''# A'') = Inr (Node (fields root_node) [Node sample_A []])
   \<and> map_option ids
        (mindmapData (addChildToSelectedNode 1700000000000
                        (addChildToSelectedNode 1700000000000 sample_view)))
       = Some [js ''root'', js ''node-1'', js ''node-1700000000000'', js ''node-1700000000000'']
   \<and> \<not> distinct [js ''root'', js ''node-1'', js ''node-1700000000000'', js ''node-1700000000000'']"
proof -
  have "map_option ids
        (mindmapData (addChildToSelectedNode 1700000000000
                        (addChildToSelectedNode 1700000000000 sample_view)))
       = Some [js ''root'', js ''node-1'', js ''node-1700000000000'', js ''node-1700000000000'']"
    by (simp add: view_eval layout_eval ids_def decimal.simps)
  with parse_single show ?thesis by simp
qed


subsection \<open>Undo\<close>

definition ready :: "view_state \<Rightarrow> bool" where
  "ready s \<longleftrightarrow> mindmapData s \<noteq> None \<and> getSelectedNode s \<noteq> None"

definition hist_ok :: "view_state \<Rightarrow> bool" where
  "hist_ok s \<longleftrightarrow>
     historyIndex s = int (length (history s)) - 1 \<and> length (history s) \<le> 20 \<and> liveSlot s = None"

fun undo_times :: "nat \<Rightarrow> view_state \<Rightarrow> js_error + view_state" where
  "undo_times 0 s = Inr s"
| "undo_times (Suc n) s = (case undo s of Inl e \<Rightarrow> Inl e | Inr s' \<Rightarrow> undo_times n s')"

lemma new_child_id_found:
  assumes "node_at t r = Some p"
  shows "findNodeById (calculateNodePositions (update_at (push_child (new_child now f)) r t))
           (js ''node-'' @ decimal now) \<noteq> None"
proof -
  let ?c = "new_child now f"
  let ?u = "update_at (push_child ?c) r t"
  have "fields ?c \<in> set (all_nodes ?u)"
    using all_nodes_push[OF assms, of ?c] fields_in_all_nodes[of ?c] by auto
  then have "node_id (fields ?c) \<in> set (ids ?u)" by (auto simp: ids_def)
  then have "js ''node-'' @ decimal now \<in> set (ids (calculateNodePositions ?u))"
    by (simp add: ids_layout new_child_def)
  then show ?thesis using findNodeById_finds(1) by (simp add: ids_def)
qed

lemma add_child_state:
  assumes "getSelectedNode s = Some r" "mindmapData s = Some t" "node_at t r = Some p"
    and "liveSlot s = None"
  shows "addChildToSelectedNode now s =
     View (Some (calculateNodePositions (update_at (push_child (new_child now (fields p))) r t)))
          (history (saveToHistory s)) (historyIndex (saveToHistory s)) None
          (Some (js ''node-'' @ decimal now))"
proof -
  have l: "liveSlot (saveToHistory s) = None"
    using assms(2,4) by (simp add: saveToHistory_def Let_def)
  show ?thesis using assms(1,2,3) l
    by (simp add: addChildToSelectedNode_def Let_def selectNode_def renderMindmap_def
        mutate_live_def mindmapData_saveToHistory new_child_def)
qed

lemma saveToHistory_hist:
  assumes "mindmapData s \<noteq> None" "hist_ok s"
  shows "historyIndex (saveToHistory s) = int (length (history (saveToHistory s))) - 1"
    and "length (history (saveToHistory s)) = min 20 (length (history s) + 1)"
proof -
  from assms(1) obtain t where t: "mindmapData s = Some t" by auto
  from assms(2) have i: "historyIndex s + 1 = int (length (history s))" and n: "length (history s) \<le> 20"
    by (simp_all add: hist_ok_def)
  have k2: "slice0 (history s) (int (length (history s))) = history s"
    by (simp add: slice0_def)
  then have k: "slice0 (history s) (historyIndex s + 1) = history s"
    unfolding i .
  show "historyIndex (saveToHistory s) = int (length (history (saveToHistory s))) - 1"
    using t n i by (simp add: saveToHistory_def Let_def k k2)
  show "length (history (saveToHistory s)) = min 20 (length (history s) + 1)"
    using t n by (simp add: saveToHistory_def Let_def k k2)
qed

lemma add_child_ready:
  assumes "ready s" "hist_ok s"
  shows "ready (addChildToSelectedNode now s)" and "hist_ok (addChildToSelectedNode now s)"
    and "length (history (addChildToSelectedNode now s)) = min 20 (length (history s) + 1)"
proof -
  from assms(1) obtain r t where r: "getSelectedNode s = Some r" and t: "mindmapData s = Some t"
    by (auto simp: ready_def)
  from r t obtain i where "findNodeById t i = Some r"
    by (auto simp: getSelectedNode_def split: option.splits if_splits)
  from findNodeById_valid(1)[OF this] obtain p where p: "node_at t r = Some p" by auto
  from assms(2) have l: "liveSlot s = None" by (simp add: hist_ok_def)
  note st = add_child_state[OF r t p l, of now]
  have ne: "js ''node-'' @ decimal now \<noteq> []" by (simp add: js_def)
  show "ready (addChildToSelectedNode now s)"
    unfolding st ready_def getSelectedNode_def using new_child_id_found[OF p] ne by simp
  have d: "mindmapData s \<noteq> None" using t by simp
  show "length (history (addChildToSelectedNode now s)) = min 20 (length (history s) + 1)"
    unfolding st using saveToHistory_hist(2)[OF d assms(2)] by simp
  then show "hist_ok (addChildToSelectedNode now s)"
    unfolding st hist_ok_def using saveToHistory_hist(1)[OF d assms(2)] by simp
qed

lemma add_children:
  "ready s \<Longrightarrow> hist_ok s \<Longrightarrow>
     ready (fold addChildToSelectedNode nows s) \<and> hist_ok (fold addChildToSelectedNode nows s) \<and>
     length (history (fold addChildToSelectedNode nows s)) =
       min 20 (length (history s) + length nows)"
proof (induction nows arbitrary: s)
  case Nil
  then show ?case by (simp add: hist_ok_def)
next
  case (Cons now nows)
  note a = add_child_ready[OF Cons.prems, of now]
  from Cons.IH[OF a(1,2)] a(3) show ?case by (simp add: min_def)
qed

lemma undo_rejected: "historyIndex s \<le> 0 \<Longrightarrow> undo s = Inr s"
  by (simp add: undo_def)

lemma undo_step:
  assumes "0 < historyIndex s" "historyIndex s < int (length (history s))"
  shows "\<exists>s'. undo s = Inr s' \<and> historyIndex s' = historyIndex s - 1 \<and>
           length (history s') = length (history s) \<and>
           mindmapData s' =
             Some (calculateNodePositions (history s ! nat (historyIndex s - 1)))"
proof -
  have "nat (historyIndex s - 1) < length (history s)" using assms by linarith
  then show ?thesis using assms(1)
    by (simp add: undo_def Let_def recalculateAndRender_def renderMindmap_def mutate_live_def)
qed

lemma undo_times_steps:
  "int k \<le> historyIndex s \<Longrightarrow> historyIndex s < int (length (history s)) \<Longrightarrow>
     \<exists>s'. undo_times k s = Inr s' \<and> historyIndex s' = historyIndex s - int k \<and>
          length (history s') = length (history s)"
proof (induction k arbitrary: s)
  case 0
  then show ?case by simp
next
  case (Suc k)
  then have "0 < historyIndex s" by simp
  from undo_step[OF this Suc.prems(2)] obtain s1 where s1: "undo s = Inr s1"
    "historyIndex s1 = historyIndex s - 1" "length (history s1) = length (history s)"
    by blast
  with Suc.prems have "int k \<le> historyIndex s1" "historyIndex s1 < int (length (history s1))"
    by simp_all
  from Suc.IH[OF this] s1 show ?case by auto
qed


text \<open>
  Claim C5, as the code has it. From a freshly loaded view with a node selected: after one
  \<open>addChildToSelectedNode\<close> the history holds one snapshot and \<open>undo\<close> does nothing. After 25
  of them the history holds 20 snapshots and the index is 19; the first \<open>undo\<close> restores
  entry 18, not the newest entry 19, and after 19 undos the index is 0 and every further
  \<open>undo\<close> does nothing. So 19 states, not 20, come back.
\<close>

theorem undo_bound:
  assumes "mindmapData s0 \<noteq> None" and "getSelectedNode s0 \<noteq> None" and "history s0 = []"
    and "historyIndex s0 = - 1" and "liveSlot s0 = None" and "length nows = 25"
  shows "undo (addChildToSelectedNode now s0) = Inr (addChildToSelectedNode now s0)
       \<and> length (history (fold addChildToSelectedNode nows s0)) = 20
       \<and> historyIndex (fold addChildToSelectedNode nows s0) = 19
       \<and> (\<exists>s1. undo (fold addChildToSelectedNode nows s0) = Inr s1 \<and>
             mindmapData s1 =
               Some (calculateNodePositions (history (fold addChildToSelectedNode nows s0) ! 18)))
       \<and> (\<exists>s'. undo_times 19 (fold addChildToSelectedNode nows s0) = Inr s' \<and>
             historyIndex s' = 0 \<and> undo s' = Inr s')"
proof -
  let ?s = "fold addChildToSelectedNode nows s0"
  have r: "ready s0" using assms(1,2) by (simp add: ready_def)
  have h: "hist_ok s0" using assms(3,4,5) by (simp add: hist_ok_def)
  from add_child_ready[OF r h, of now] assms(3)
  have "historyIndex (addChildToSelectedNode now s0) = 0" by (simp add: hist_ok_def)
  then have 1: "undo (addChildToSelectedNode now s0) = Inr (addChildToSelectedNode now s0)"
    by (simp add: undo_rejected)
  from add_children[OF r h, of nows] assms(3,6)
  have len: "length (history ?s) = 20" and idx: "historyIndex ?s = 19"
    by (simp_all add: hist_ok_def)
  from undo_step[of ?s] len idx obtain s1 where
    "undo ?s = Inr s1" "mindmapData s1 = Some (calculateNodePositions (history ?s ! 18))"
    by auto
  then have 2: "\<exists>s1. undo ?s = Inr s1 \<and>
      mindmapData s1 = Some (calculateNodePositions (history ?s ! 18))"
    by blast
  from undo_times_steps[of 19 ?s] len idx obtain s' where
    s': "undo_times 19 ?s = Inr s'" "historyIndex s' = 0"
    by auto
  then have "undo s' = Inr s'" by (simp add: undo_rejected)
  with s' have 3: "\<exists>s'. undo_times 19 ?s = Inr s' \<and> historyIndex s' = 0 \<and> undo s' = Inr s'"
    by blast
  from 1 len idx 2 3 show ?thesis by blast
qed



theorem undo_bound_witness:
  "mindmapData sample_view \<noteq> None \<and> getSelectedNode sample_view \<noteq> None
   \<and> history sample_view = [] \<and> historyIndex sample_view = - 1 \<and> liveSlot sample_view = None
   \<and> length [1..<26] = 25
   \<and> undo (addChildToSelectedNode 7 sample_view) = Inr (addChildToSelectedNode 7 sample_view)
   \<and> length (history (fold addChildToSelectedNode [1..<26] sample_view)) = 20
   \<and> historyIndex (fold addChildToSelectedNode [1..<26] sample_view) = 19
   \<and> (\<exists>s'. undo_times 19 (fold addChildToSelectedNode [1..<26] sample_view) = Inr s' \<and>
          historyIndex s' = 0 \<and> undo s' = Inr s')"
proof -
  have h: "mindmapData sample_view \<noteq> None" "getSelectedNode sample_view \<noteq> None"
    "history sample_view = []" "historyIndex sample_view = - 1" "liveSlot sample_view = None"
    using sample_view_selected by (simp_all add: sample_view_def selectNode_def loaded_def)
  have l: "length [1..<26] = 25" by simp
  from undo_bound[OF h l, of 7] h l show ?thesis by blast
qed


section \<open>Moving a node under another\<close>

text \<open>
  \<open>moveNodeToParent\<close> and \<open>isAncestor\<close> follow the \<open>parent\<close> references of the node objects
  and compare objects by identity, so here the nodes live in a store: an address stands
  for an object, and a cell holds the two fields the functions read and write, \<open>parent\<close>
  and \<open>children\<close>. The loop of \<open>isAncestor\<close> need not end in a store whose parent references
  run in a circle; \<open>None\<close> is that case. \<open>indexOf\<close> followed by \<open>splice\<close> removes the first
  occurrence, as \<open>remove1\<close> does. The last statement calls \<open>recalculateAndRender\<close> of the
  view, which writes coordinates and the selection; it is the argument \<open>rerender\<close> here, and \<open>canvasData\<close> is the tree the canvas holds.
\<close>

type_synonym addr = nat

datatype cell = Cell (parent_ref: "addr option") (child_refs: "addr list")

type_synonym store = "addr \<Rightarrow> cell"

partial_function (option) isAncestor_loop :: "store \<Rightarrow> addr \<Rightarrow> addr option \<Rightarrow> bool option" where
  "isAncestor_loop h ancestor current =
     (case current of
        None \<Rightarrow> Some False
      | Some c \<Rightarrow> if c = ancestor then Some True
                  else isAncestor_loop h ancestor (parent_ref (h c)))"

definition isAncestor :: "store \<Rightarrow> addr \<Rightarrow> addr \<Rightarrow> bool option" where
  "isAncestor h ancestor descendant = isAncestor_loop h ancestor (parent_ref (h descendant))"

definition moveNodeToParent ::
  "(store \<Rightarrow> store) \<Rightarrow> addr option \<Rightarrow> store \<Rightarrow> addr \<Rightarrow> addr \<Rightarrow> store option" where
  "moveNodeToParent rerender canvasData h childNode newParent =
     (if canvasData = None \<or> childNode = newParent then Some h
      else case isAncestor h childNode newParent of
             None \<Rightarrow> None
           | Some True \<Rightarrow> Some h
           | Some False \<Rightarrow>
               let h1 = (case parent_ref (h childNode) of
                           None \<Rightarrow> h
                         | Some p \<Rightarrow>
                             h(p := Cell (parent_ref (h p)) (remove1 childNode (child_refs (h p)))));
                   h2 = h1(childNode := Cell (Some newParent) (child_refs (h1 childNode)));
                   h3 = h2(newParent := Cell (parent_ref (h2 newParent))
                                             (child_refs (h2 newParent) @ [childNode]))
               in Some (rerender h3))"

definition child_rel :: "store \<Rightarrow> (addr \<times> addr) set" where
  "child_rel h = {(p, c). c \<in> set (child_refs (h p))}"

definition parent_rel :: "store \<Rightarrow> (addr \<times> addr) set" where
  "parent_rel h = {(p, c). parent_ref (h c) = Some p}"

definition descendant_of :: "store \<Rightarrow> addr \<Rightarrow> addr \<Rightarrow> bool" where
  "descendant_of h n t \<longleftrightarrow> (n, t) \<in> (child_rel h)\<^sup>+"

definition linked :: "store \<Rightarrow> bool" where
  "linked h \<longleftrightarrow> child_rel h = parent_rel h"

lemma isAncestor_descendant:
  assumes l: "linked h" and d: "descendant_of h n t"
  shows "isAncestor h n t = Some True"
proof -
  from d have "(n, t) \<in> (parent_rel h)\<^sup>+" using l by (simp add: descendant_of_def linked_def)
  then show ?thesis
  proof (induction rule: trancl_induct)
    case (base y)
    then have "parent_ref (h y) = Some n" by (simp add: parent_rel_def)
    then show ?case by (simp add: isAncestor_def isAncestor_loop.simps)
  next
    case (step y z)
    from step.hyps(2) have p: "parent_ref (h z) = Some y" by (simp add: parent_rel_def)
    show ?case
    proof (cases "y = n")
      case True
      with p show ?thesis by (simp add: isAncestor_def isAncestor_loop.simps)
    next
      case False
      have "isAncestor h n z = isAncestor_loop h n (Some y)" by (simp add: isAncestor_def p)
      also have "\<dots> = isAncestor_loop h n (parent_ref (h y))"
        using False by (subst isAncestor_loop.simps) simp
      also have "\<dots> = Some True" using step.IH by (simp add: isAncestor_def)
      finally show ?thesis .
    qed
  qed
qed

lemma isAncestor_other:
  assumes l: "linked h" and w: "wf (parent_rel h)"
  shows "\<not> descendant_of h n t \<Longrightarrow> isAncestor h n t = Some False"
  using w
proof (induction t rule: wf_induct_rule)
  case (less t)
  show ?case
  proof (cases "parent_ref (h t)")
    case None
    then show ?thesis by (simp add: isAncestor_def isAncestor_loop.simps)
  next
    case (Some p)
    then have e: "(p, t) \<in> child_rel h" using l by (simp add: linked_def parent_rel_def)
    have pn: "p \<noteq> n"
    proof
      assume "p = n"
      with e have "descendant_of h n t" by (auto simp: descendant_of_def)
      with less.prems show False by simp
    qed
    have nd: "\<not> descendant_of h n p"
    proof
      assume "descendant_of h n p"
      with e have "descendant_of h n t" by (auto simp: descendant_of_def intro: trancl_into_trancl)
      with less.prems show False by simp
    qed
    from Some have "(p, t) \<in> parent_rel h" by (simp add: parent_rel_def)
    from less.IH[OF this nd] have i: "isAncestor h n p = Some False" .
    have "isAncestor h n t = isAncestor_loop h n (Some p)" by (simp add: isAncestor_def Some)
    also have "\<dots> = isAncestor_loop h n (parent_ref (h p))"
      using pn by (subst isAncestor_loop.simps) simp
    also have "\<dots> = Some False" using i by (simp add: isAncestor_def)
    finally show ?thesis .
  qed
qed

lemma moveNodeToParent_effect:
  assumes "canvasData \<noteq> None" "n \<noteq> t" "isAncestor h n t = Some False"
  shows "\<exists>h'. moveNodeToParent r canvasData h n t = Some (r h') \<and>
           (\<forall>a. parent_ref (h' a) = (if a = n then Some t else parent_ref (h a)) \<and>
                child_refs (h' a) =
                  (if parent_ref (h n) = Some a then remove1 n (child_refs (h a))
                   else child_refs (h a)) @ (if a = t then [n] else []))"
  using assms
  by (cases "parent_ref (h n)") (auto simp: moveNodeToParent_def Let_def)


text \<open>
  Claim C4. In a store where the children lists and the parent references agree, and with
  a tree loaded: if the target is the node itself or one of its descendants,
  \<open>moveNodeToParent\<close> returns with the store as it was. If the target is neither, and the
  parent references do not run in a circle, it returns with the node removed from the
  children of its old parent, pushed at the end of the children of the target and its
  parent set to the target, every other parent and children field being as before.
\<close>

theorem cycle_guard:
  assumes "linked h" and "canvasData \<noteq> None"
  shows "(childNode = newParent \<or> descendant_of h childNode newParent \<longrightarrow>
            moveNodeToParent rerender canvasData h childNode newParent = Some h)
       \<and> (childNode \<noteq> newParent \<and> \<not> descendant_of h childNode newParent \<and> wf (parent_rel h) \<longrightarrow>
            (\<exists>h'. moveNodeToParent rerender canvasData h childNode newParent
                    = Some (rerender h') \<and>
              (\<forall>a. parent_ref (h' a) = (if a = childNode then Some newParent else parent_ref (h a)) \<and>
                   child_refs (h' a) =
                     (if parent_ref (h childNode) = Some a then remove1 childNode (child_refs (h a))
                      else child_refs (h a)) @ (if a = newParent then [childNode] else []))))"
proof (intro conjI impI)
  assume "childNode = newParent \<or> descendant_of h childNode newParent"
  then show "moveNodeToParent rerender canvasData h childNode newParent = Some h"
    using isAncestor_descendant[OF assms(1)] by (auto simp: moveNodeToParent_def)
next
  assume a: "childNode \<noteq> newParent \<and> \<not> descendant_of h childNode newParent \<and> wf (parent_rel h)"
  then have "isAncestor h childNode newParent = Some False"
    using isAncestor_other[OF assms(1)] by blast
  with a assms(2) show "\<exists>h'. moveNodeToParent rerender canvasData h childNode newParent
                    = Some (rerender h') \<and>
              (\<forall>a. parent_ref (h' a) = (if a = childNode then Some newParent else parent_ref (h a)) \<and>
                   child_refs (h' a) =
                     (if parent_ref (h childNode) = Some a then remove1 childNode (child_refs (h a))
                      else child_refs (h a)) @ (if a = newParent then [childNode] else []))"
    using moveNodeToParent_effect by blast
qed



definition sample_store :: store where
  "sample_store = (\<lambda>_. Cell None [])
     (0 := Cell None [1, 3], 1 := Cell (Some 0) [2], 2 := Cell (Some 1) [], 3 := Cell (Some 0) [])"

lemma sample_store_linked: "linked sample_store"
  by (auto simp: linked_def child_rel_def parent_rel_def sample_store_def split: if_splits)

lemma sample_store_below_1: "(1, x) \<in> (child_rel sample_store)\<^sup>+ \<Longrightarrow> x = 2"
  by (induction rule: trancl_induct)
     (auto simp: child_rel_def sample_store_def split: if_splits)

lemma sample_store_wf: "wf (parent_rel sample_store)"
proof (rule wf_subset[OF wf_measure])
  show "parent_rel sample_store \<subseteq> measure (\<lambda>a. if a = 0 then 0 else if a = 2 then 2 else 1)"
    by (auto simp: parent_rel_def sample_store_def split: if_splits)
qed



theorem cycle_guard_witness:
  "linked sample_store \<and> descendant_of sample_store 1 2 \<and> \<not> descendant_of sample_store 1 3
   \<and> wf (parent_rel sample_store)
   \<and> moveNodeToParent id (Some 0) sample_store 1 1 = Some sample_store
   \<and> moveNodeToParent id (Some 0) sample_store 1 2 = Some sample_store
   \<and> (\<exists>h'. moveNodeToParent id (Some 0) sample_store 1 3 = Some h' \<and>
        map (\<lambda>a. (parent_ref (h' a), child_refs (h' a))) [0, 1, 2, 3]
          = [(None, [3]), (Some 3, [2]), (Some 1, []), (Some 0, [1])])"
proof -
  have d: "descendant_of sample_store 1 2"
    by (auto simp: descendant_of_def child_rel_def sample_store_def)
  have n: "\<not> descendant_of sample_store 1 3"
    using sample_store_below_1[of 3] by (auto simp: descendant_of_def)
  have m: "Some (0::nat) \<noteq> None" by simp
  from cycle_guard[OF sample_store_linked m, of 1 1 id]
  have a: "moveNodeToParent id (Some 0) sample_store 1 1 = Some sample_store" by simp
  from cycle_guard[OF sample_store_linked m, of 1 2 id] d
  have b: "moveNodeToParent id (Some 0) sample_store 1 2 = Some sample_store" by simp
  from cycle_guard[OF sample_store_linked m, of 1 3 id] n sample_store_wf
  obtain h' where h': "moveNodeToParent id (Some 0) sample_store 1 3 = Some h'"
    and e: "\<And>a. parent_ref (h' a) = (if a = 1 then Some 3 else parent_ref (sample_store a))"
       "\<And>a. child_refs (h' a) =
              (if parent_ref (sample_store 1) = Some a then remove1 1 (child_refs (sample_store a))
               else child_refs (sample_store a)) @ (if a = 3 then [1] else [])"
    by auto
  have "map (\<lambda>a. (parent_ref (h' a), child_refs (h' a))) [0, 1, 2, 3]
          = [(None, [3]), (Some 3, [2]), (Some 1, []), (Some 0, [1])]"
    by (simp add: e sample_store_def)
  with h' have c: "\<exists>h'. moveNodeToParent id (Some 0) sample_store 1 3 = Some h' \<and>
        map (\<lambda>a. (parent_ref (h' a), child_refs (h' a))) [0, 1, 2, 3]
          = [(None, [3]), (Some 3, [2]), (Some 1, []), (Some 0, [1])]"
    by (intro exI conjI)
  from sample_store_linked d n sample_store_wf a b c show ?thesis by (intro conjI)
qed

end
